theory Spec2Isabelle
  imports Complex_Main "HOL-Library.Sublist" "HOL-Library.List_Lexorder"
    "HOL-Library.Product_Lexorder"
begin


section \<open>Connect-K: the data model of common.py\<close>

text \<open>
  A cell is a Python int: 0 is the empty cell, every other value is the id of the player
  owning the piece. A board is a list of rows, the first row being the top of the board.
  A position is a (row, column) pair counted from 0; the columns a caller names are
  counted from 1.
\<close>

type_synonym cell = int
type_synonym board = "cell list list"
type_synonym position = "int \<times> int"
type_synonym run = "int \<times> position list"

text \<open>The exceptions the functions of common.py can raise.\<close>

datatype error = IndexError | ValueError | AssertionError | Diverges

text \<open>
  \<open>Diverges\<close> is not an exception: it stands for a call that never returns (the
  \<^verbatim>\<open>while True\<close> loop of \<^verbatim>\<open>count_free_cells\<close> run with the direction (0, 0) from
  an empty cell). A result \<open>Inr v\<close> is a call that returns \<open>v\<close>.
\<close>

definition bind_err :: "error + 'a \<Rightarrow> ('a \<Rightarrow> error + 'b) \<Rightarrow> error + 'b" where
  "bind_err m f = (case m of Inl e \<Rightarrow> Inl e | Inr x \<Rightarrow> f x)"

text \<open>
  Python's \<^verbatim>\<open>xs[i]\<close> and \<^verbatim>\<open>xs[i] = v\<close> for a list: a negative index counts from
  the end, and an index outside the list raises IndexError.
\<close>

definition py_getitem :: "'a list \<Rightarrow> int \<Rightarrow> error + 'a" where
  "py_getitem xs i =
     (let n = int (length xs); j = (if i < 0 then i + n else i)
      in if 0 \<le> j \<and> j < n then Inr (xs ! nat j) else Inl IndexError)"

definition py_setitem :: "'a list \<Rightarrow> int \<Rightarrow> 'a \<Rightarrow> error + 'a list" where
  "py_setitem xs i v =
     (let n = int (length xs); j = (if i < 0 then i + n else i)
      in if 0 \<le> j \<and> j < n then Inr (xs[nat j := v]) else Inl IndexError)"

subsection \<open>Board\<close>

text \<open>\<^verbatim>\<open>create_board\<close>: \<^verbatim>\<open>[[0] * num_cols for _ in range(num_rows)]\<close>; a count that is
  not positive gives the empty list.\<close>

definition create_board :: "int \<Rightarrow> int \<Rightarrow> board" where
  "create_board num_rows num_cols = replicate (nat num_rows) (replicate (nat num_cols) 0)"

text \<open>\<^verbatim>\<open>get_free_columns\<close>: the 1-based indices of the cells of the top row that are 0.
  \<^verbatim>\<open>board[0]\<close> raises IndexError on a board with no row.\<close>

definition get_free_columns :: "board \<Rightarrow> error + int list" where
  "get_free_columns b =
     (case py_getitem b 0 of
        Inl e \<Rightarrow> Inl e
      | Inr top_row \<Rightarrow>
          Inr (map (\<lambda>(i, c). int i + 1) (filter (\<lambda>(i, c). c = 0) (enumerate 0 top_row))))"

text \<open>
  \<^verbatim>\<open>drop_piece\<close> mutates the board and returns a bool, or raises. The model passes the
  board through: the result is the value returned or the exception raised, paired with the
  board as the call leaves it. \<open>drop_loop\<close> is the \<^verbatim>\<open>for row in reversed(board)\<close> loop,
  run over the rows from the bottom one.

  A board value is a list of rows, each with its own cells: this is the board of the code
  when its rows are distinct list objects, as \<^verbatim>\<open>create_board\<close> and
  \<^verbatim>\<open>copy_and_drop_piece\<close> build them, and whenever nothing is written. A board that has
  one row object twice is covered by the store model below, where a write into a row object
  shows in every row that is this object.
\<close>

fun drop_loop :: "cell list list \<Rightarrow> int \<Rightarrow> int \<Rightarrow> (error + bool) \<times> cell list list" where
  "drop_loop [] player index = (Inr False, [])"
| "drop_loop (row # rows) player index =
     (case py_getitem row index of
        Inl e \<Rightarrow> (Inl e, row # rows)
      | Inr v \<Rightarrow>
          if v = 0 then
            (case py_setitem row index player of
               Inl e \<Rightarrow> (Inl e, row # rows)
             | Inr row' \<Rightarrow> (Inr True, row' # rows))
          else (case drop_loop rows player index of (r, rows') \<Rightarrow> (r, row # rows')))"

definition drop_piece :: "board \<Rightarrow> int \<Rightarrow> int \<Rightarrow> (error + bool) \<times> board" where
  "drop_piece b player column =
     (case drop_loop (rev b) player (column - 1) of (r, rows') \<Rightarrow> (r, rev rows'))"

text \<open>\<^verbatim>\<open>copy_and_drop_piece\<close> returns the copy whatever \<^verbatim>\<open>drop_piece\<close> returned, and
  raises when \<^verbatim>\<open>drop_piece\<close> raises.\<close>

definition copy_and_drop_piece :: "board \<Rightarrow> int \<Rightarrow> int \<Rightarrow> error + board" where
  "copy_and_drop_piece b player column =
     (case drop_piece b player column of
        (Inl e, _) \<Rightarrow> Inl e
      | (Inr _, new_board) \<Rightarrow> Inr new_board)"

subsection \<open>The board as objects: rows in a store\<close>

text \<open>
  In Python a board is a list of references to row objects, and \<^verbatim>\<open>drop_piece\<close> writes
  into one row object. The store holds the row objects, a reference is an index into the
  store, and allocating appends to the store. \<^verbatim>\<open>row.copy()\<close> allocates a new row object
  with the same cells.
\<close>

type_synonym store = "cell list list"
type_synonym board_ref = "nat list"

definition contents :: "store \<Rightarrow> board_ref \<Rightarrow> board" where
  "contents h b = map (\<lambda>a. h ! a) b"

fun drop_loop_store :: "nat list \<Rightarrow> int \<Rightarrow> int \<Rightarrow> store \<Rightarrow> (error + bool) \<times> store" where
  "drop_loop_store [] player index h = (Inr False, h)"
| "drop_loop_store (a # as) player index h =
     (case py_getitem (h ! a) index of
        Inl e \<Rightarrow> (Inl e, h)
      | Inr v \<Rightarrow>
          if v = 0 then
            (case py_setitem (h ! a) index player of
               Inl e \<Rightarrow> (Inl e, h)
             | Inr row' \<Rightarrow> (Inr True, h[a := row']))
          else drop_loop_store as player index h)"

definition drop_piece_store :: "board_ref \<Rightarrow> int \<Rightarrow> int \<Rightarrow> store \<Rightarrow> (error + bool) \<times> store" where
  "drop_piece_store b player column h = drop_loop_store (rev b) player (column - 1) h"

definition copy_and_drop_piece_store ::
  "board_ref \<Rightarrow> int \<Rightarrow> int \<Rightarrow> store \<Rightarrow> (error + board_ref) \<times> store" where
  "copy_and_drop_piece_store b player column h =
     (let new_board = [length h ..< length h + length b];
          h1 = h @ map (\<lambda>a. h ! a) b
      in case drop_piece_store new_board player column h1 of
           (Inl e, h2) \<Rightarrow> (Inl e, h2)
         | (Inr _, h2) \<Rightarrow> (Inr new_board, h2))"

subsection \<open>The line scanner\<close>

text \<open>
  A generator is the list of the values it yields, followed by the exception that ends it,
  if one does: a consumer that stops early never sees the exception.
\<close>

type_synonym 'a gen = "'a list \<times> error option"

text \<open>A generator expression \<^verbatim>\<open>(f(x) for x in xs)\<close> whose \<^verbatim>\<open>f\<close> may raise.\<close>

fun gen_of :: "('a \<Rightarrow> error + 'b) \<Rightarrow> 'a list \<Rightarrow> 'b gen" where
  "gen_of f [] = ([], None)"
| "gen_of f (x # xs) =
     (case f x of
        Inl e \<Rightarrow> ([], Some e)
      | Inr y \<Rightarrow> (case gen_of f xs of (ys, r) \<Rightarrow> (y # ys, r)))"

text \<open>\<^verbatim>\<open>for g in gs: yield from g\<close>: the generators one after the other, up to the first
  exception.\<close>

fun gen_chain :: "'a gen list \<Rightarrow> 'a gen" where
  "gen_chain [] = ([], None)"
| "gen_chain ((ys, Some e) # gs) = (ys, Some e)"
| "gen_chain ((ys, None) # gs) = (case gen_chain gs of (zs, r) \<Rightarrow> (ys @ zs, r))"

text \<open>
  \<^verbatim>\<open>pieces_in_a_row_from_cells\<close>. \<open>flush\<close> is the guarded \<^verbatim>\<open>yield\<close>, written twice in
  the source; \<open>from_cells_loop\<close> is the \<^verbatim>\<open>for\<close> loop, returning what it yields and the
  \<^verbatim>\<open>current_player\<close> and \<^verbatim>\<open>positions\<close> it ends with. The \<^verbatim>\<open>yield\<close> after the loop is
  reached only when the cells were produced without an exception.
\<close>

definition flush :: "cell \<Rightarrow> position list \<Rightarrow> run list" where
  "flush current_player positions =
     (if length positions > 1 \<and> current_player \<noteq> 0 then [(current_player, positions)] else [])"

fun from_cells_loop ::
  "cell \<Rightarrow> position list \<Rightarrow> (position \<times> cell) list \<Rightarrow> run list \<times> cell \<times> position list" where
  "from_cells_loop current_player positions [] = ([], current_player, positions)"
| "from_cells_loop current_player positions ((position, c) # cells) =
     (if c = current_player then from_cells_loop current_player (positions @ [position]) cells
      else (case from_cells_loop c [position] cells of
              (ys, st) \<Rightarrow> (flush current_player positions @ ys, st)))"

definition pieces_in_a_row_from_cells :: "(position \<times> cell) gen \<Rightarrow> run gen" where
  "pieces_in_a_row_from_cells g =
     (case g of (cells, err) \<Rightarrow>
        (case from_cells_loop 0 [] cells of
           (ys, current_player, positions) \<Rightarrow>
             (case err of
                Some e \<Rightarrow> (ys, Some e)
              | None \<Rightarrow> (ys @ flush current_player positions, None))))"

text \<open>\<^verbatim>\<open>board_with_positions\<close>: every cell paired with its position.\<close>

definition board_with_positions :: "board \<Rightarrow> (position \<times> cell) list list" where
  "board_with_positions b =
     map (\<lambda>(i, row). map (\<lambda>(j, c). ((int i, int j), c)) (enumerate 0 row)) (enumerate 0 b)"

text \<open>
  \<^verbatim>\<open>pieces_in_a_row\<close>: the six loops of the source in their order. \<^verbatim>\<open>len(board[0])\<close>
  raises IndexError on a board with no row, before anything is yielded. The slices are
  written with \<open>take\<close>, \<open>drop\<close> and \<open>rev\<close>:
  \<^item> \<^verbatim>\<open>bwp[: num_cols - starting_column]\<close> is \<open>take (num_cols - starting_column) bwp\<close>
    (the bound is at least 2);
  \<^item> \<^verbatim>\<open>bwp[starting_row : starting_row + num_cols]\<close> is
    \<open>take num_cols (drop starting_row bwp)\<close>;
  \<^item> \<^verbatim>\<open>bwp[-1 : -(num_cols - starting_column) - 1 : -1]\<close> walks from the last row upwards
    and stops before the row \<open>num_cols - starting_column\<close> places above it, or at the
    first row: \<open>take (num_cols - starting_column) (rev bwp)\<close>;
  \<^item> \<^verbatim>\<open>bwp[starting_row : None : -1]\<close> is \<open>rev (take (starting_row + 1) bwp)\<close>, and
    \<^verbatim>\<open>bwp[starting_row : last_index : -1]\<close> with \<open>0 \<le> last_index\<close> leaves out the rows up to
    \<open>last_index\<close>: \<open>rev (drop (last_index + 1) (take (starting_row + 1) bwp))\<close>.
  \<^verbatim>\<open>range(num_cols - 1)\<close> is \<open>[0..<num_cols - 1]\<close> and \<^verbatim>\<open>range(1, num_rows - 1)\<close> is
  \<open>[1..<num_rows - 1]\<close>, both empty when the bound is not positive.
\<close>

definition pieces_in_a_row :: "board \<Rightarrow> run gen" where
  "pieces_in_a_row b =
     (case py_getitem b 0 of
        Inl e \<Rightarrow> ([], Some e)
      | Inr row0 \<Rightarrow>
         (let num_rows = length b;
              num_cols = length row0;
              bwp = board_with_positions b
          in gen_chain
              (map (\<lambda>row. pieces_in_a_row_from_cells (row, None)) bwp
               @ map (\<lambda>column_index.
                    pieces_in_a_row_from_cells
                      (gen_of (\<lambda>row. py_getitem row (int column_index)) bwp))
                  [0..<num_cols]
               @ map (\<lambda>starting_column.
                    pieces_in_a_row_from_cells
                      (gen_of (\<lambda>(offset, row). py_getitem row (int starting_column + int offset))
                         (enumerate 0 (take (num_cols - starting_column) bwp))))
                  [0..<num_cols - 1]
               @ map (\<lambda>starting_row.
                    pieces_in_a_row_from_cells
                      (gen_of (\<lambda>(offset, row). py_getitem row (int offset))
                         (enumerate 0 (take num_cols (drop starting_row bwp)))))
                  [1..<num_rows - 1]
               @ map (\<lambda>starting_column.
                    pieces_in_a_row_from_cells
                      (gen_of (\<lambda>(offset, row). py_getitem row (int starting_column + int offset))
                         (enumerate 0 (take (num_cols - starting_column) (rev bwp)))))
                  [0..<num_cols - 1]
               @ map (\<lambda>starting_row.
                    (let last_index = int starting_row - int num_cols
                     in pieces_in_a_row_from_cells
                          (gen_of (\<lambda>(offset, row). py_getitem row (int offset))
                             (enumerate 0
                                (if last_index < 0 then rev (take (Suc starting_row) bwp)
                                 else rev (drop (Suc (nat last_index))
                                             (take (Suc starting_row) bwp)))))))
                  [1..<num_rows - 1])))"

subsection \<open>The outcome evaluator\<close>

definition GAME_NOT_OVER :: int where
  "GAME_NOT_OVER = 0"

definition DRAW :: int where
  "DRAW = - 1"

text \<open>\<^verbatim>\<open>end_of_game\<close>: the loop returns at the first run that is long enough, so an
  exception the generator would raise later is never seen.\<close>

definition end_of_game :: "int \<Rightarrow> board \<Rightarrow> error + int" where
  "end_of_game k b =
     (case pieces_in_a_row b of (runs, err) \<Rightarrow>
        (case find (\<lambda>(player, cells). int (length cells) \<ge> k) runs of
           Some (player, cells) \<Rightarrow> Inr player
         | None \<Rightarrow>
             (case err of
                Some e \<Rightarrow> Inl e
              | None \<Rightarrow>
                  bind_err (py_getitem b 0)
                    (\<lambda>top_row. Inr (if 0 \<in> set top_row then GAME_NOT_OVER else DRAW)))))"

subsection \<open>Move heuristics\<close>

text \<open>
  The loop \<^verbatim>\<open>for column in free_columns: if end_of_game(k, copy_and_drop_piece(board,
  who, column)) == who: return column\<close>, which \<^verbatim>\<open>win_or_block_column\<close> runs for the
  player and then for each opponent.
\<close>

fun winning_column :: "int \<Rightarrow> board \<Rightarrow> int \<Rightarrow> int list \<Rightarrow> error + int option" where
  "winning_column k b who [] = Inr None"
| "winning_column k b who (column # columns) =
     (case copy_and_drop_piece b who column of
        Inl e \<Rightarrow> Inl e
      | Inr new_board \<Rightarrow>
          (case end_of_game k new_board of
             Inl e \<Rightarrow> Inl e
           | Inr state \<Rightarrow>
               if state = who then Inr (Some column) else winning_column k b who columns))"

text \<open>The loop over \<^verbatim>\<open>i in range(num_players - 1)\<close>; Python's \<^verbatim>\<open>%\<close> with a positive
  divisor is \<open>mod\<close>.\<close>

fun block_loop :: "int \<Rightarrow> int \<Rightarrow> board \<Rightarrow> int list \<Rightarrow> int \<Rightarrow> int list \<Rightarrow> error + int option" where
  "block_loop k num_players b free_columns player [] = Inr None"
| "block_loop k num_players b free_columns player (i # is) =
     (let opponent = (player + i) mod num_players + 1
      in case winning_column k b opponent free_columns of
           Inl e \<Rightarrow> Inl e
         | Inr (Some column) \<Rightarrow> Inr (Some column)
         | Inr None \<Rightarrow> block_loop k num_players b free_columns player is)"

definition win_or_block_column ::
  "int \<Rightarrow> int \<Rightarrow> board \<Rightarrow> int list \<Rightarrow> int \<Rightarrow> error + int option" where
  "win_or_block_column k num_players b free_columns player =
     (case winning_column k b player free_columns of
        Inl e \<Rightarrow> Inl e
      | Inr (Some column) \<Rightarrow> Inr (Some column)
      | Inr None \<Rightarrow> block_loop k num_players b free_columns player [0..num_players - 2])"

text \<open>
  \<^verbatim>\<open>count_free_cells\<close>, the \<^verbatim>\<open>while True\<close> loop inside \<^verbatim>\<open>can_win_from_pieces\<close>. With
  the direction (0, 0) the loop stays on one cell: it never returns when that cell is on
  the board and empty. With any other direction it walks off the board. The cell is read
  as \<^verbatim>\<open>board[row][col]\<close>, which raises on a row shorter than the first one.
\<close>

function count_free_cells ::
  "board \<Rightarrow> int \<Rightarrow> int \<Rightarrow> int \<Rightarrow> int \<Rightarrow> int \<Rightarrow> int \<Rightarrow> int \<Rightarrow> error + int" where
  "count_free_cells b num_rows num_cols row col row_diff col_diff count =
     (let row' = row + row_diff; col' = col + col_diff
      in if 0 \<le> row' \<and> row' < num_rows \<and> 0 \<le> col' \<and> col' < num_cols then
           (case bind_err (py_getitem b row') (\<lambda>r. py_getitem r col') of
              Inl e \<Rightarrow> Inl e
            | Inr v \<Rightarrow>
                if v = 0 then
                  (if row_diff = 0 \<and> col_diff = 0 then Inl Diverges
                   else count_free_cells b num_rows num_cols row' col' row_diff col_diff
                          (count + 1))
                else Inr count)
         else Inr count)"
  by pat_completeness auto
termination
  by (relation "measure (\<lambda>(b, num_rows, num_cols, row, col, row_diff, col_diff, count).
        if row_diff > 0 then nat (num_rows - row)
        else if row_diff < 0 then nat (row + 1)
        else if col_diff > 0 then nat (num_cols - col)
        else nat (col + 1))") auto

definition can_win_from_pieces :: "int \<Rightarrow> board \<Rightarrow> position list \<Rightarrow> error + bool" where
  "can_win_from_pieces k b positions =
     bind_err (py_getitem b 0) (\<lambda>row0.
       let num_rows = int (length b); num_cols = int (length row0) in
       bind_err (py_getitem positions 0) (\<lambda>fst_pos.
       bind_err (py_getitem positions 1) (\<lambda>snd_pos.
       bind_err (py_getitem positions (- 1)) (\<lambda>lst_pos.
         let row_diff = fst snd_pos - fst fst_pos;
             col_diff = snd snd_pos - snd fst_pos in
         bind_err (count_free_cells b num_rows num_cols (fst lst_pos) (snd lst_pos)
                     row_diff col_diff 0) (\<lambda>forwards.
         bind_err (count_free_cells b num_rows num_cols (fst fst_pos) (snd fst_pos)
                     (- row_diff) (- col_diff) 0) (\<lambda>backwards.
           Inr (forwards + backwards \<ge> k - int (length positions))))))))"

fun can_win_now_loop :: "int \<Rightarrow> board \<Rightarrow> int \<Rightarrow> int list \<Rightarrow> error + bool" where
  "can_win_now_loop k b player [] = Inr False"
| "can_win_now_loop k b player (column # columns) =
     (case copy_and_drop_piece b player column of
        Inl e \<Rightarrow> Inl e
      | Inr new_board \<Rightarrow>
          (case end_of_game k new_board of
             Inl e \<Rightarrow> Inl e
           | Inr state \<Rightarrow>
               if state = player then Inr True else can_win_now_loop k b player columns))"

definition can_win_now :: "int \<Rightarrow> board \<Rightarrow> int \<Rightarrow> error + bool" where
  "can_win_now k b player =
     bind_err (get_free_columns b) (\<lambda>columns. can_win_now_loop k b player columns)"

text \<open>
  \<^verbatim>\<open>counts[index][side] += 1\<close> on the table of \<^verbatim>\<open>column_score\<close>: both subscripts are
  Python subscripts, so a negative index counts from the last row and an index outside
  the table raises IndexError.
\<close>

definition bump :: "int list list \<Rightarrow> int \<Rightarrow> int \<Rightarrow> error + int list list" where
  "bump counts index side =
     bind_err (py_getitem counts index) (\<lambda>row.
     bind_err (py_getitem row side) (\<lambda>v.
     bind_err (py_setitem row side (v + 1)) (\<lambda>row'.
       py_setitem counts index row')))"

text \<open>The first loop of \<^verbatim>\<open>column_score\<close>, over the runs of the board after the player's
  drop; \<open>check_board\<close> is the board handed to \<^verbatim>\<open>can_win_from_pieces\<close>.\<close>

fun count_player_runs ::
  "int \<Rightarrow> board \<Rightarrow> int \<Rightarrow> run list \<Rightarrow> int list list \<Rightarrow> error + int list list" where
  "count_player_runs k check_board player [] counts = Inr counts"
| "count_player_runs k check_board player ((row_player, cells) # runs) counts =
     (if row_player = player then
        (case can_win_from_pieces k check_board cells of
           Inl e \<Rightarrow> Inl e
         | Inr extendable \<Rightarrow>
             if extendable then
               (case bump counts (k - int (length cells) - 1) 0 of
                  Inl e \<Rightarrow> Inl e
                | Inr counts' \<Rightarrow> count_player_runs k check_board player runs counts')
             else count_player_runs k check_board player runs counts)
      else count_player_runs k check_board player runs counts)"

text \<open>The inner loop for one opponent, over the runs of the board after the opponent's
  drop: a run of two cells is not counted.\<close>

fun count_opponent_runs ::
  "int \<Rightarrow> board \<Rightarrow> int \<Rightarrow> run list \<Rightarrow> int list list \<Rightarrow> error + int list list" where
  "count_opponent_runs k check_board opponent [] counts = Inr counts"
| "count_opponent_runs k check_board opponent ((row_player, cells) # runs) counts =
     (if row_player = opponent then
        (case can_win_from_pieces k check_board cells of
           Inl e \<Rightarrow> Inl e
         | Inr extendable \<Rightarrow>
             if extendable \<and> length cells \<noteq> 2 then
               (case bump counts (k - int (length cells) - 1) 1 of
                  Inl e \<Rightarrow> Inl e
                | Inr counts' \<Rightarrow> count_opponent_runs k check_board opponent runs counts')
             else count_opponent_runs k check_board opponent runs counts)
      else count_opponent_runs k check_board opponent runs counts)"

text \<open>A \<^verbatim>\<open>for\<close> loop over a generator: the body has run on every value yielded when
  the generator's exception, if any, is raised.\<close>

definition after_gen :: "error option \<Rightarrow> error + 'a \<Rightarrow> error + 'a" where
  "after_gen err r = (case r of Inl e \<Rightarrow> Inl e | Inr v \<Rightarrow> (case err of Some e \<Rightarrow> Inl e | None \<Rightarrow> Inr v))"

text \<open>The loop \<^verbatim>\<open>for opponent in range(1, num_players + 1)\<close> of \<^verbatim>\<open>column_score\<close>.\<close>

fun opponents_loop ::
  "int \<Rightarrow> board \<Rightarrow> int \<Rightarrow> int \<Rightarrow> int list \<Rightarrow> int list list \<Rightarrow> error + bool \<times> int list list" where
  "opponents_loop k b player column [] counts = Inr (True, counts)"
| "opponents_loop k b player column (opponent # opponents) counts =
     (if opponent = player then opponents_loop k b player column opponents counts
      else
        (case copy_and_drop_piece b player column of
           Inl e \<Rightarrow> Inl e
         | Inr board_with_players_play \<Rightarrow>
             (case can_win_now k board_with_players_play opponent of
                Inl e \<Rightarrow> Inl e
              | Inr wins \<Rightarrow>
                  if wins then Inr (False, [])
                  else
                    (case copy_and_drop_piece b opponent column of
                       Inl e \<Rightarrow> Inl e
                     | Inr board_with_opponents_play \<Rightarrow>
                         (case pieces_in_a_row board_with_opponents_play of (runs, err) \<Rightarrow>
                            (case after_gen err
                                    (count_opponent_runs k board_with_opponents_play opponent
                                       runs counts) of
                               Inl e \<Rightarrow> Inl e
                             | Inr counts' \<Rightarrow>
                                 opponents_loop k b player column opponents counts'))))))"

definition column_score ::
  "int \<Rightarrow> int \<Rightarrow> board \<Rightarrow> int \<Rightarrow> int \<Rightarrow> error + bool \<times> int list list" where
  "column_score k num_players b player column =
     (let counts = replicate (nat (k - 2)) [0, 0] in
      bind_err (copy_and_drop_piece b player column) (\<lambda>new_board.
        case pieces_in_a_row new_board of (runs, err) \<Rightarrow>
          bind_err (after_gen err (count_player_runs k b player runs counts)) (\<lambda>counts'.
            opponents_loop k b player column [1..num_players] counts')))"

subsection \<open>The hard strategy\<close>

text \<open>
  The key of \<^verbatim>\<open>max\<close> is a Python tuple \<^verbatim>\<open>((bool, list of lists), float)\<close>, compared
  lexicographically; lists compare lexicographically too, a proper prefix being smaller.
  These are the orders of \<open>Product_Lexorder\<close> and \<open>List_Lexorder\<close>. The second
  component is \<^verbatim>\<open>num_cols - abs((num_cols + 1) / 2 - column)\<close>, a float that is a multiple
  of one half; the model computes it in the rationals, where it is exact (as it is for
  floats on any board that fits in memory).
\<close>

type_synonym score_key = "(bool \<times> int list list) \<times> rat"

definition tiebreak :: "nat \<Rightarrow> int \<Rightarrow> rat" where
  "tiebreak num_cols column =
     of_nat num_cols - \<bar>(of_nat num_cols + 1) / 2 - of_int column\<bar>"

text \<open>The keys of the columns, computed in order; the first exception ends the call.\<close>

fun column_keys ::
  "int \<Rightarrow> int \<Rightarrow> board \<Rightarrow> int \<Rightarrow> nat \<Rightarrow> int list \<Rightarrow> error + (int \<times> score_key) list" where
  "column_keys k num_players b player num_cols [] = Inr []"
| "column_keys k num_players b player num_cols (column # columns) =
     (case column_score k num_players b player column of
        Inl e \<Rightarrow> Inl e
      | Inr score \<Rightarrow>
          (case column_keys k num_players b player num_cols columns of
             Inl e \<Rightarrow> Inl e
           | Inr rest \<Rightarrow> Inr ((column, (score, tiebreak num_cols column)) # rest)))"

text \<open>Python's \<^verbatim>\<open>max(xs, key=...)\<close>: ValueError on no element, and the first of the
  elements with the greatest key otherwise (a later element replaces the current one only
  when its key is strictly greater).\<close>

fun max_loop :: "'a \<Rightarrow> 'k::linorder \<Rightarrow> ('a \<times> 'k) list \<Rightarrow> 'a" where
  "max_loop best best_key [] = best"
| "max_loop best best_key ((x, key) # rest) =
     (if key > best_key then max_loop x key rest else max_loop best best_key rest)"

definition py_max :: "('a \<times> 'k::linorder) list \<Rightarrow> error + 'a" where
  "py_max keyed = (case keyed of [] \<Rightarrow> Inl ValueError | (x, key) # rest \<Rightarrow> Inr (max_loop x key rest))"

text \<open>
  \<^verbatim>\<open>cpu_player_hard\<close> mutates the board; like \<open>drop_piece\<close>, the model returns the
  column or the exception together with the board the call leaves. \<^verbatim>\<open>a or b\<close> takes
  \<^verbatim>\<open>b\<close> when \<^verbatim>\<open>a\<close> is None or 0.
\<close>

definition choose_column :: "int \<Rightarrow> int \<Rightarrow> board \<Rightarrow> int \<Rightarrow> error + int" where
  "choose_column k num_players b player =
     bind_err (py_getitem b 0) (\<lambda>row0.
     bind_err (get_free_columns b) (\<lambda>free_columns.
     bind_err (win_or_block_column k num_players b free_columns player) (\<lambda>found.
       let best = bind_err (column_keys k num_players b player (length row0) free_columns)
                    py_max
       in case found of
            None \<Rightarrow> best
          | Some column \<Rightarrow> if column \<noteq> 0 then Inr column else best)))"

definition cpu_player_hard :: "int \<Rightarrow> int \<Rightarrow> board \<Rightarrow> int \<Rightarrow> (error + int) \<times> board" where
  "cpu_player_hard k num_players b player =
     (case choose_column k num_players b player of
        Inl e \<Rightarrow> (Inl e, b)
      | Inr chosen_column \<Rightarrow>
          (case drop_piece b player chosen_column of
             (Inl e, b') \<Rightarrow> (Inl e, b')
           | (Inr dropped, b') \<Rightarrow>
               if dropped then (Inr chosen_column, b') else (Inl AssertionError, b')))"


section \<open>Predicates of the specification\<close>

text \<open>A rectangular board: every row is as long as the first one.\<close>

definition rect :: "board \<Rightarrow> bool" where
  "rect b = list_all (\<lambda>row. length row = length (hd b)) b"

text \<open>Column \<open>j\<close> (counted from 0) has an empty cell.\<close>

definition column_has_empty :: "board \<Rightarrow> nat \<Rightarrow> bool" where
  "column_has_empty b j = list_ex (\<lambda>row. row ! j = 0) b"

text \<open>Gravity: in every column, every cell below an occupied cell is occupied.\<close>

definition gravity :: "board \<Rightarrow> bool" where
  "gravity b =
     list_all (\<lambda>j. list_all (\<lambda>i. b ! i ! j \<noteq> 0 \<longrightarrow>
                   list_all (\<lambda>i'. b ! i' ! j \<noteq> 0) [Suc i..<length b]) [0..<length b])
       [0..<length (hd b)]"

subsection \<open>Runs as geometry\<close>

text \<open>
  \<open>shift s d t\<close> is the position \<open>t\<close> steps from \<open>s\<close> in the direction \<open>d\<close>. The four
  directions of the scanner are \<open>(0, 1)\<close> (a row, rightwards), \<open>(1, 0)\<close> (a column,
  downwards), \<open>(1, 1)\<close> (a diagonal, down and right) and \<open>(-1, 1)\<close> (a diagonal, up and
  right). A player owns a position that is on the board and holds the player's id.
\<close>

definition shift :: "position \<Rightarrow> position \<Rightarrow> int \<Rightarrow> position" where
  "shift s d t = (fst s + t * fst d, snd s + t * snd d)"

definition directions :: "position list" where
  "directions = [(0, 1), (1, 0), (1, 1), (- 1, 1)]"

definition in_board :: "board \<Rightarrow> position \<Rightarrow> bool" where
  "in_board b pos \<longleftrightarrow>
     0 \<le> fst pos \<and> fst pos < int (length b) \<and> 0 \<le> snd pos \<and> snd pos < int (length (hd b))"

definition cell_at :: "board \<Rightarrow> position \<Rightarrow> cell" where
  "cell_at b pos = b ! nat (fst pos) ! nat (snd pos)"

definition owns :: "board \<Rightarrow> int \<Rightarrow> position \<Rightarrow> bool" where
  "owns b q pos \<longleftrightarrow> in_board b pos \<and> cell_at b pos = q"

text \<open>The \<open>m\<close> positions from \<open>s\<close> in the direction \<open>d\<close>, in order.\<close>

definition segment :: "position \<Rightarrow> position \<Rightarrow> nat \<Rightarrow> position list" where
  "segment s d m = map (\<lambda>t. shift s d (int t)) [0..<m]"

text \<open>
  A maximal run of player \<open>q\<close>: positions following one another in one of the four
  directions, all owned by \<open>q\<close>, that cannot be extended at either end (the position before
  the first and the position after the last are not owned by \<open>q\<close>).
\<close>

definition maximal_run :: "board \<Rightarrow> int \<Rightarrow> position list \<Rightarrow> bool" where
  "maximal_run b q ps \<longleftrightarrow>
     q \<noteq> 0 \<and> ps \<noteq> [] \<and> list_all (owns b q) ps \<and>
     list_ex (\<lambda>d. ps = segment (hd ps) d (length ps)
                 \<and> \<not> owns b q (shift (hd ps) d (- 1))
                 \<and> \<not> owns b q (shift (hd ps) d (int (length ps)))) directions"

text \<open>
  The lines the scanner walks, each as its first position, its direction and its number of
  cells, in the order of the six loops of \<open>pieces_in_a_row\<close>; \<open>line\<close> pairs the positions of
  a line with the cells there, and \<open>line_runs\<close> is what \<open>pieces_in_a_row_from_cells\<close> yields
  on cells produced without an exception.
\<close>

definition line :: "board \<Rightarrow> position \<Rightarrow> position \<Rightarrow> nat \<Rightarrow> (position \<times> cell) list" where
  "line b s d n = map (\<lambda>t. (shift s d (int t), cell_at b (shift s d (int t)))) [0..<n]"

definition line_specs :: "board \<Rightarrow> (position \<times> position \<times> nat) list" where
  "line_specs b =
     (let R = length b; C = length (hd b)
      in map (\<lambda>i. ((int i, 0), (0, 1), C)) [0..<R]
         @ map (\<lambda>j. ((0, int j), (1, 0), R)) [0..<C]
         @ map (\<lambda>sc. ((0, int sc), (1, 1), min R (C - sc))) [0..<C - 1]
         @ map (\<lambda>sr. ((int sr, 0), (1, 1), min C (R - sr))) [1..<R - 1]
         @ map (\<lambda>sc. ((int (R - 1), int sc), (- 1, 1), min R (C - sc))) [0..<C - 1]
         @ map (\<lambda>sr. ((int sr, 0), (- 1, 1), min C (Suc sr))) [1..<R - 1])"

definition line_runs :: "(position \<times> cell) list \<Rightarrow> run list" where
  "line_runs cells = fst (pieces_in_a_row_from_cells (cells, None))"

text \<open>The runs yielded on the line of one entry of \<open>line_specs\<close>.\<close>

definition spec_runs :: "board \<Rightarrow> position \<times> position \<times> nat \<Rightarrow> run list" where
  "spec_runs b sp = (case sp of (s, d, n) \<Rightarrow> line_runs (line b s d n))"

text \<open>What \<open>from_cells_loop\<close> yields from a state of the loop, the \<^verbatim>\<open>yield\<close> after the loop
  included.\<close>

definition runs :: "cell \<Rightarrow> position list \<Rightarrow> (position \<times> cell) list \<Rightarrow> run list" where
  "runs cur acc cells = (case from_cells_loop cur acc cells of (ys, c, ps) \<Rightarrow> ys @ flush c ps)"

text \<open>A line that runs from one edge of the board to another: its cells are on the board,
  the position before its first cell and the position after its last cell are not.\<close>

definition full_line :: "board \<Rightarrow> position \<times> position \<times> nat \<Rightarrow> bool" where
  "full_line b sp = (case sp of (s, d, n) \<Rightarrow>
     d \<in> set directions \<and> (\<forall>t < n. in_board b (shift s d (int t)))
     \<and> \<not> in_board b (shift s d (- 1)) \<and> \<not> in_board b (shift s d (int n)))"

text \<open>All the runs of a board, in the scanner's order.\<close>

definition all_runs :: "board \<Rightarrow> run list" where
  "all_runs b = concat (map (spec_runs b) (line_specs b))"

text \<open>The first run of at least \<open>k\<close> cells in a list of runs.\<close>

definition first_long_run :: "int \<Rightarrow> run list \<Rightarrow> run option" where
  "first_long_run k ys = find (\<lambda>(player, cells). k \<le> int (length cells)) ys"

text \<open>Every cell is 0 or a player id, which is positive.\<close>

definition cells_nonneg :: "board \<Rightarrow> bool" where
  "cells_nonneg b = list_all (list_all (\<lambda>c. 0 \<le> c)) b"

text \<open>Some player has a run of at least \<open>k\<close> cells (a run has at least two cells).\<close>

definition long_run_exists :: "int \<Rightarrow> board \<Rightarrow> bool" where
  "long_run_exists k b \<longleftrightarrow>
     (\<exists>q ps. maximal_run b q ps \<and> 2 \<le> length ps \<and> k \<le> int (length ps))"

subsection \<open>Winning and blocking\<close>

text \<open>
  \<open>wins k b who column\<close>: the drop of \<open>who\<close> into \<open>column\<close> returns a board on which
  \<open>end_of_game\<close> returns \<open>who\<close>: the test of \<^verbatim>\<open>win_or_block_column\<close> and \<^verbatim>\<open>can_win_now\<close>.
  \<open>opponents_in_turn_order\<close> is the list of the opponents \<^verbatim>\<open>win_or_block_column\<close> walks,
  and \<open>columns_in_range\<close> says that a list of columns names columns of the board.
\<close>

definition wins :: "int \<Rightarrow> board \<Rightarrow> int \<Rightarrow> int \<Rightarrow> bool" where
  "wins k b who column =
     (case copy_and_drop_piece b who column of
        Inl e \<Rightarrow> False
      | Inr new_board \<Rightarrow> end_of_game k new_board = Inr who)"

definition opponents_in_turn_order :: "int \<Rightarrow> int \<Rightarrow> int list" where
  "opponents_in_turn_order num_players player =
     map (\<lambda>i. (player + i) mod num_players + 1) [0..num_players - 2]"

definition columns_in_range :: "board \<Rightarrow> int list \<Rightarrow> bool" where
  "columns_in_range b columns = list_all (\<lambda>c. 1 \<le> c \<and> c \<le> int (length (hd b))) columns"

text \<open>The board of the docstring of \<^verbatim>\<open>win_or_block_column\<close>.\<close>

definition scenario_board :: board where
  "scenario_board =
     [[0, 0, 0, 0, 0, 0, 0], [0, 0, 0, 0, 0, 0, 0], [0, 0, 0, 0, 0, 0, 0],
      [0, 0, 0, 0, 0, 0, 0], [0, 0, 0, 0, 0, 0, 0], [1, 0, 1, 1, 1, 0, 0]]"


section \<open>The board model\<close>

lemma py_getitem_nat: "j < length xs \<Longrightarrow> py_getitem xs (int j) = Inr (xs ! j)"
  by (simp add: py_getitem_def)

lemma py_setitem_nat: "j < length xs \<Longrightarrow> py_setitem xs (int j) v = Inr (xs[j := v])"
  by (simp add: py_setitem_def)

lemma py_getitem_high: "int (length xs) \<le> i \<Longrightarrow> py_getitem xs i = Inl IndexError"
  by (simp add: py_getitem_def Let_def)

lemma drop_loop_unchanged:
  "fst (drop_loop rs p idx) \<noteq> Inr True \<Longrightarrow> snd (drop_loop rs p idx) = rs"
  by (induction rs) (auto split: sum.splits prod.splits if_splits)

lemma drop_loop_length: "length (snd (drop_loop rs p idx)) = length rs"
  by (induction rs) (auto split: sum.splits prod.splits if_splits)

lemma drop_loop_full:
  "\<forall>row\<in>set rs. j < length row \<and> row ! j \<noteq> 0 \<Longrightarrow> drop_loop rs p (int j) = (Inr False, rs)"
  by (induction rs) (auto simp: py_getitem_nat)

lemma drop_loop_found:
  assumes "\<forall>row\<in>set rs. j < length row" and "\<exists>row\<in>set rs. row ! j = 0"
  shows "\<exists>m < length rs. rs ! m ! j = 0 \<and> (\<forall>m' < m. rs ! m' ! j \<noteq> 0) \<and>
           drop_loop rs p (int j) = (Inr True, rs[m := (rs ! m)[j := p]])"
  using assms
proof (induction rs)
  case Nil
  then show ?case by simp
next
  case (Cons row rs)
  show ?case
  proof (cases "row ! j = 0")
    case True
    with Cons.prems show ?thesis
      by (intro exI[of _ 0]) (simp add: py_getitem_nat py_setitem_nat)
  next
    case False
    with Cons.prems have "\<exists>row\<in>set rs. row ! j = 0" by auto
    with Cons obtain m where m: "m < length rs" "rs ! m ! j = 0" "\<forall>m' < m. rs ! m' ! j \<noteq> 0"
      "drop_loop rs p (int j) = (Inr True, rs[m := (rs ! m)[j := p]])" by auto
    have "\<forall>m' < Suc m. (row # rs) ! m' ! j \<noteq> 0"
      using False m(3) by (auto simp: less_Suc_eq_0_disj)
    with m False Cons.prems show ?thesis
      by (intro exI[of _ "Suc m"]) (simp add: py_getitem_nat)
  qed
qed

lemma drop_loop_high:
  "rs \<noteq> [] \<Longrightarrow> int (length (hd rs)) \<le> idx \<Longrightarrow> drop_loop rs p idx = (Inl IndexError, rs)"
  by (cases rs) (auto simp: py_getitem_high)

lemma drop_piece_unchanged:
  "fst (drop_piece b p c) \<noteq> Inr True \<Longrightarrow> snd (drop_piece b p c) = b"
  using drop_loop_unchanged[of "rev b" p "c - 1"]
  by (auto simp: drop_piece_def split: prod.splits)

lemma drop_piece_full:
  assumes "\<forall>row\<in>set b. j < length row \<and> row ! j \<noteq> 0"
  shows "drop_piece b p (int j + 1) = (Inr False, b)"
  using drop_loop_full[of "rev b" j p] assms by (simp add: drop_piece_def)

lemma drop_piece_found:
  assumes "\<forall>row\<in>set b. j < length row" and "\<exists>i < length b. b ! i ! j = 0"
  shows "\<exists>i < length b. b ! i ! j = 0 \<and> (\<forall>i'. i < i' \<and> i' < length b \<longrightarrow> b ! i' ! j \<noteq> 0) \<and>
           drop_piece b p (int j + 1) = (Inr True, b[i := (b ! i)[j := p]])"
proof -
  have "\<forall>row\<in>set (rev b). j < length row" using assms(1) by simp
  moreover have "\<exists>row\<in>set (rev b). row ! j = 0" using assms(2) nth_mem by fastforce
  ultimately obtain m where m: "m < length (rev b)" "rev b ! m ! j = 0"
    "\<forall>m' < m. rev b ! m' ! j \<noteq> 0"
    "drop_loop (rev b) p (int j) = (Inr True, (rev b)[m := (rev b ! m)[j := p]])"
    using drop_loop_found[of "rev b" j p] by blast
  define i where "i = length b - 1 - m"
  have il: "i < length b" using m(1) by (simp add: i_def)
  have ri: "rev b ! m = b ! i" using m(1) by (simp add: rev_nth i_def)
  have above: "b ! i' ! j \<noteq> 0" if "i < i'" "i' < length b" for i'
  proof -
    have "length b - 1 - i' < m" using that m(1) by (simp add: i_def)
    then have "rev b ! (length b - 1 - i') ! j \<noteq> 0" using m(3) by blast
    moreover have "rev b ! (length b - 1 - i') = b ! i'"
      using that by (simp add: rev_nth)
    ultimately show ?thesis by simp
  qed
  have "rev ((rev b)[m := (b ! i)[j := p]]) = b[i := (b ! i)[j := p]]"
    using m(1) by (simp add: rev_update i_def)
  with m ri il above show ?thesis
    by (intro exI[of _ i]) (simp add: drop_piece_def)
qed


lemma enumerate_map_nth: "enumerate 0 xs = map (\<lambda>i. (i, xs ! i)) [0..<length xs]"
  by (rule nth_equalityI) (simp_all add: nth_enumerate_eq)

lemma get_free_columns_eq:
  "b \<noteq> [] \<Longrightarrow> get_free_columns b =
     Inr (map (\<lambda>i. int i + 1) (filter (\<lambda>i. hd b ! i = 0) [0..<length (hd b)]))"
  by (cases b) (simp_all add: get_free_columns_def py_getitem_def enumerate_map_nth filter_map
      comp_def)

lemma free_column_iff:
  "c \<in> set (map (\<lambda>i. int i + 1) (filter (\<lambda>i. xs ! i = 0) [0..<length xs])) \<longleftrightarrow>
     1 \<le> c \<and> c \<le> int (length xs) \<and> xs ! nat (c - 1) = 0"
proof
  assume "c \<in> set (map (\<lambda>i. int i + 1) (filter (\<lambda>i. xs ! i = 0) [0..<length xs]))"
  then obtain i where "i < length xs" "xs ! i = 0" "c = int i + 1" by auto
  then show "1 \<le> c \<and> c \<le> int (length xs) \<and> xs ! nat (c - 1) = 0" by simp
next
  assume a: "1 \<le> c \<and> c \<le> int (length xs) \<and> xs ! nat (c - 1) = 0"
  then have "nat (c - 1) < length xs" "c = int (nat (c - 1)) + 1" by auto
  with a have "nat (c - 1) \<in> set (filter (\<lambda>i. xs ! i = 0) [0..<length xs])"
    "c = (\<lambda>i. int i + 1) (nat (c - 1))" by simp_all
  then show "c \<in> set (map (\<lambda>i. int i + 1) (filter (\<lambda>i. xs ! i = 0) [0..<length xs]))"
    unfolding set_map by (rule image_eqI[rotated])
qed

lemma rect_nth: "rect b \<Longrightarrow> i < length b \<Longrightarrow> length (b ! i) = length (hd b)"
  by (simp add: rect_def list_all_length)

lemma rect_set: "rect b \<Longrightarrow> row \<in> set b \<Longrightarrow> length row = length (hd b)"
  by (simp add: rect_def list_all_iff)

lemma hd_update_row:
  "i < length b \<Longrightarrow> hd (b[i := r]) = (if i = 0 then r else hd b)"
  by (cases b; cases i) simp_all

lemma rect_update:
  assumes "rect b" "i < length b"
  shows "rect (b[i := (b ! i)[j := p]])"
proof -
  have "hd (b[i := (b ! i)[j := p]]) = (if i = 0 then (b ! 0)[j := p] else hd b)"
    using assms(2) by (simp add: hd_update_row)
  then have h: "length (hd (b[i := (b ! i)[j := p]])) = length (hd b)"
    using assms by (auto simp: rect_nth)
  show ?thesis
    unfolding rect_def list_all_length h
    using assms by (auto simp: nth_list_update rect_nth)
qed

lemma free_columns_subseq:
  assumes "length row' = length row" and "\<forall>c < length row. row' ! c = 0 \<longrightarrow> row ! c = (0::int)"
  shows "subseq (map (\<lambda>i. int i + 1) (filter (\<lambda>c. row' ! c = 0) [0..<length row']))
                (map (\<lambda>i. int i + 1) (filter (\<lambda>c. row ! c = 0) [0..<length row]))"
proof -
  have "filter (\<lambda>c. row' ! c = 0) [0..<length row] =
        filter (\<lambda>c. row' ! c = 0) (filter (\<lambda>c. row ! c = 0) [0..<length row])"
    using assms(2) by (auto intro!: filter_cong)
  moreover have "subseq (filter (\<lambda>c. row' ! c = 0) (filter (\<lambda>c. row ! c = 0) [0..<length row]))
                  (filter (\<lambda>c. row ! c = 0) [0..<length row])"
    by (rule subseq_filter_left)
  ultimately have "subseq (filter (\<lambda>c. row' ! c = 0) [0..<length row'])
                  (filter (\<lambda>c. row ! c = 0) [0..<length row])"
    unfolding assms(1) by (rule ssubst)
  then show ?thesis
    by (rule subseq_map)
qed

lemma gravity_iff:
  "gravity b \<longleftrightarrow>
     (\<forall>j < length (hd b). \<forall>i < length b. b ! i ! j \<noteq> 0 \<longrightarrow>
        (\<forall>i'. i < i' \<and> i' < length b \<longrightarrow> b ! i' ! j \<noteq> 0))"
proof -
  have "(\<forall>i'\<in>set [Suc i..<n]. P i') \<longleftrightarrow> (\<forall>i'. i < i' \<and> i' < n \<longrightarrow> P i')" for i n :: nat and P
    by (simp add: Ball_def Suc_le_eq)
  then show ?thesis
    unfolding gravity_def list_all_iff by (simp add: Ball_def)
qed

lemma gravity_update:
  assumes r: "rect b" and i: "i < length b" and j: "j < length (hd b)"
    and z: "b ! i ! j = 0"
    and above: "\<forall>i'. i < i' \<and> i' < length b \<longrightarrow> b ! i' ! j \<noteq> 0"
    and g: "gravity b"
  shows "gravity (b[i := (b ! i)[j := p]])"
proof (cases "p = 0")
  case True
  then have "(b ! i)[j := p] = b ! i" using z by (metis list_update_id)
  then show ?thesis using g by simp
next
  case False
  let ?b' = "b[i := (b ! i)[j := p]]"
  have len: "length (hd ?b') = length (hd b)"
    using i r by (auto simp: hd_update_row rect_nth)
  have cell: "?b' ! i1 ! j1 = (if i1 = i \<and> j1 = j then p else b ! i1 ! j1)"
    if "i1 < length b" "j1 < length (hd b)" for i1 j1
  proof (cases "i1 = i")
    case True
    have "j < length (b ! i)" using r i j rect_nth by simp
    then show ?thesis using True i by (simp add: nth_list_update)
  next
    case False
    then show ?thesis by simp
  qed
  show ?thesis
    unfolding gravity_iff len
  proof (intro allI impI)
    fix j1 i1 i2
    assume a: "j1 < length (hd b)" "i1 < length ?b'" "?b' ! i1 ! j1 \<noteq> 0"
      "i1 < i2 \<and> i2 < length ?b'"
    then have l: "i1 < length b" "i2 < length b" by simp_all
    show "?b' ! i2 ! j1 \<noteq> 0"
    proof (cases "i2 = i \<and> j1 = j")
      case True
      then show ?thesis using False cell[OF l(2) a(1)] by simp
    next
      case ne: False
      then have c2: "?b' ! i2 ! j1 = b ! i2 ! j1" using cell[OF l(2) a(1)] by auto
      show ?thesis
      proof (cases "i1 = i \<and> j1 = j")
        case True
        then show ?thesis using above a(4) c2 by auto
      next
        case False
        then have "b ! i1 ! j1 \<noteq> 0" using cell[OF l(1) a(1)] a(3) by auto
        with g a(1) l a(4) have "b ! i2 ! j1 \<noteq> 0"
          unfolding gravity_iff by (elim allE[of _ j1] impE allE[of _ i1] allE[of _ i2]) simp_all
        then show ?thesis using c2 by simp
      qed
    qed
  qed
qed


text \<open>
  The drop on a board value: the lowest empty cell of the column is written, the free
  columns shrink and gravity is kept. This is what \<open>drop_piece\<close> does to a board whose rows
  are distinct objects (\<open>drop_piece_store_sim\<close> below).
\<close>

lemma drop_value_lowest_empty:
  assumes "rect b" and "1 \<le> column" and "column \<le> int (length (hd b))"
    and "column_has_empty b (nat (column - 1))"
  shows "\<exists>i fs fs'. i < length b \<and> b ! i ! nat (column - 1) = 0
     \<and> (\<forall>i'. i < i' \<and> i' < length b \<longrightarrow> b ! i' ! nat (column - 1) \<noteq> 0)
     \<and> drop_piece b player column = (Inr True, b[i := (b ! i)[nat (column - 1) := player]])
     \<and> get_free_columns b = Inr fs
     \<and> (\<forall>c. c \<in> set fs \<longleftrightarrow> 1 \<le> c \<and> c \<le> int (length (hd b)) \<and> hd b ! nat (c - 1) = 0)
     \<and> get_free_columns (snd (drop_piece b player column)) = Inr fs'
     \<and> (\<forall>c. c \<in> set fs' \<longleftrightarrow> 1 \<le> c \<and> c \<le> int (length (hd b))
            \<and> hd (snd (drop_piece b player column)) ! nat (c - 1) = 0)
     \<and> subseq fs' fs \<and> set fs' \<subseteq> set fs
     \<and> (gravity b \<longrightarrow> gravity (snd (drop_piece b player column)))"
proof -
  define j where "j = nat (column - 1)"
  have col: "column = int j + 1" and jl: "j < length (hd b)"
    using assms(2,3) by (simp_all add: j_def)
  have rows: "\<forall>row\<in>set b. j < length row" using assms(1) jl by (simp add: rect_set)
  have ex: "\<exists>i < length b. b ! i ! j = 0"
    using assms(4) by (auto simp: column_has_empty_def j_def list_ex_iff in_set_conv_nth)
  then have ne: "b \<noteq> []" by auto
  obtain i where i: "i < length b" "b ! i ! j = 0"
    "\<forall>i'. i < i' \<and> i' < length b \<longrightarrow> b ! i' ! j \<noteq> 0"
    "drop_piece b player (int j + 1) = (Inr True, b[i := (b ! i)[j := player]])"
    using drop_piece_found[OF rows ex, of player] by blast
  let ?b' = "b[i := (b ! i)[j := player]]"
  let ?fs = "map (\<lambda>i. int i + 1) (filter (\<lambda>c. hd b ! c = 0) [0..<length (hd b)])"
  let ?fs' = "map (\<lambda>i. int i + 1) (filter (\<lambda>c. hd ?b' ! c = 0) [0..<length (hd ?b')])"
  have snd: "snd (drop_piece b player column) = ?b'" using i(4) col by simp
  have len: "length (hd ?b') = length (hd b)"
    using i(1) assms(1) by (auto simp: hd_update_row rect_nth)
  have top: "\<forall>c < length (hd b). hd ?b' ! c = 0 \<longrightarrow> hd b ! c = 0"
  proof (intro allI impI)
    fix c assume c: "c < length (hd b)" "hd ?b' ! c = 0"
    show "hd b ! c = 0"
    proof (cases "i = 0")
      case True
      then have h: "hd ?b' = (hd b)[j := player]" "hd b ! j = 0"
        using i(1,2) ne by (simp_all add: hd_update_row hd_conv_nth)
      show ?thesis
      proof (cases "c = j")
        case True then show ?thesis using h(2) by simp
      next
        case False then show ?thesis using c(2) h(1) by simp
      qed
    next
      case False
      then show ?thesis using c(2) i(1) by (simp add: hd_update_row)
    qed
  qed
  have sub: "subseq ?fs' ?fs" by (rule free_columns_subseq[OF len top])
  have f: "get_free_columns b = Inr ?fs" by (rule get_free_columns_eq[OF ne])
  have f': "get_free_columns ?b' = Inr ?fs'" using ne by (intro get_free_columns_eq) simp
  have g: "gravity b \<longrightarrow> gravity ?b'"
    using gravity_update[OF assms(1) i(1) jl i(2) i(3)] by blast
  have m: "\<forall>c. c \<in> set ?fs \<longleftrightarrow> 1 \<le> c \<and> c \<le> int (length (hd b)) \<and> hd b ! nat (c - 1) = 0"
    using free_column_iff by blast
  have m': "\<forall>c. c \<in> set ?fs' \<longleftrightarrow> 1 \<le> c \<and> c \<le> int (length (hd b)) \<and> hd ?b' ! nat (c - 1) = 0"
    using free_column_iff[of _ "hd ?b'"] len by simp
  have ss: "set ?fs' \<subseteq> set ?fs"
  proof
    fix x assume x: "x \<in> set ?fs'"
    from sub x obtain y where "y \<in> set ?fs" "x = y" by (rule list_emb_set)
    then show "x \<in> set ?fs" by simp
  qed
  have dp: "drop_piece b player column = (Inr True, ?b')" using i(4) col by simp
  have "i < length b \<and> b ! i ! j = 0
     \<and> (\<forall>i'. i < i' \<and> i' < length b \<longrightarrow> b ! i' ! j \<noteq> 0)
     \<and> drop_piece b player column = (Inr True, ?b')
     \<and> get_free_columns b = Inr ?fs
     \<and> (\<forall>c. c \<in> set ?fs \<longleftrightarrow> 1 \<le> c \<and> c \<le> int (length (hd b)) \<and> hd b ! nat (c - 1) = 0)
     \<and> get_free_columns ?b' = Inr ?fs'
     \<and> (\<forall>c. c \<in> set ?fs' \<longleftrightarrow> 1 \<le> c \<and> c \<le> int (length (hd b)) \<and> hd ?b' ! nat (c - 1) = 0)
     \<and> subseq ?fs' ?fs \<and> set ?fs' \<subseteq> set ?fs
     \<and> (gravity b \<longrightarrow> gravity ?b')"
    using i(1) i(2) i(3) dp f m f' m' sub ss g by (intro conjI)
  then have "\<exists>fs fs'. i < length b \<and> b ! i ! j = 0
     \<and> (\<forall>i'. i < i' \<and> i' < length b \<longrightarrow> b ! i' ! j \<noteq> 0)
     \<and> drop_piece b player column = (Inr True, ?b')
     \<and> get_free_columns b = Inr fs
     \<and> (\<forall>c. c \<in> set fs \<longleftrightarrow> 1 \<le> c \<and> c \<le> int (length (hd b)) \<and> hd b ! nat (c - 1) = 0)
     \<and> get_free_columns ?b' = Inr fs'
     \<and> (\<forall>c. c \<in> set fs' \<longleftrightarrow> 1 \<le> c \<and> c \<le> int (length (hd b)) \<and> hd ?b' ! nat (c - 1) = 0)
     \<and> subseq fs' fs \<and> set fs' \<subseteq> set fs
     \<and> (gravity b \<longrightarrow> gravity ?b')"
    by blast
  then show ?thesis
    unfolding snd j_def by (rule exI[of _ i])
qed


text \<open>
  Claim C6, as the code has it. Whenever \<open>drop_piece\<close> does not return True (it returns
  False or raises), the board is left as it was. On a rectangular board a full column
  \<open>1 \<le> column \<le> num_cols\<close> returns False, and a column greater than \<open>num_cols\<close> raises
  IndexError instead of returning False.
\<close>

theorem drop_piece_failure_leaves_board:
  "(fst (drop_piece b player column) \<noteq> Inr True \<longrightarrow> snd (drop_piece b player column) = b)
   \<and> (rect b \<and> 1 \<le> column \<and> column \<le> int (length (hd b))
        \<and> \<not> column_has_empty b (nat (column - 1))
      \<longrightarrow> drop_piece b player column = (Inr False, b))
   \<and> (rect b \<and> b \<noteq> [] \<and> int (length (hd b)) < column
      \<longrightarrow> drop_piece b player column = (Inl IndexError, b))"
proof (intro conjI impI)
  show "snd (drop_piece b player column) = b" if "fst (drop_piece b player column) \<noteq> Inr True"
    using that by (rule drop_piece_unchanged)
next
  assume a: "rect b \<and> 1 \<le> column \<and> column \<le> int (length (hd b))
        \<and> \<not> column_has_empty b (nat (column - 1))"
  define j where "j = nat (column - 1)"
  have col: "column = int j + 1" and jl: "j < length (hd b)"
    using a unfolding j_def by linarith+
  have "\<forall>row\<in>set b. j < length row \<and> row ! j \<noteq> 0"
    using a jl by (auto simp: rect_set column_has_empty_def list_ex_iff j_def)
  then show "drop_piece b player column = (Inr False, b)"
    unfolding col by (rule drop_piece_full)
next
  assume a: "rect b \<and> b \<noteq> [] \<and> int (length (hd b)) < column"
  then have "length (hd (rev b)) = length (hd b)"
    by (simp add: hd_rev rect_set)
  with a have "drop_loop (rev b) player (column - 1) = (Inl IndexError, rev b)"
    by (intro drop_loop_high) simp_all
  then show "drop_piece b player column = (Inl IndexError, b)"
    by (simp add: drop_piece_def)
qed

text \<open>
  Column 0 is the subscript \<open>-1\<close>, Python's last element: the drop succeeds and the piece
  lands in the last column. Column 3 of a board of two columns raises IndexError.
\<close>

theorem drop_piece_column_zero_counterexample:
  "fst (drop_piece [[0, 0]] 1 0) = Inr True \<and> snd (drop_piece [[0, 0]] 1 0) = [[0, 1]]
   \<and> fst (drop_piece [[0, 0]] 1 3) = Inl IndexError"
  by (simp add: drop_piece_def py_getitem_def py_setitem_def)

lemma drop_loop_store_sim:
  assumes "distinct as" and "\<forall>a\<in>set as. a < length h"
  shows "drop_loop (map (\<lambda>a. h ! a) as) p idx =
           (fst (drop_loop_store as p idx h), map (\<lambda>a. snd (drop_loop_store as p idx h) ! a) as)
         \<and> length (snd (drop_loop_store as p idx h)) = length h
         \<and> (\<forall>a. a \<notin> set as \<longrightarrow> snd (drop_loop_store as p idx h) ! a = h ! a)"
  using assms
proof (induction as)
  case Nil
  then show ?case by simp
next
  case (Cons a as)
  show ?case
  proof (cases "py_getitem (h ! a) idx")
    case (Inl e)
    then show ?thesis by simp
  next
    case (Inr v)
    show ?thesis
    proof (cases "v = 0")
      case True
      show ?thesis
      proof (cases "py_setitem (h ! a) idx p")
        case (Inl e)
        then show ?thesis using Inr True by simp
      next
        case r: (Inr row')
        have "h[a := row'] ! x = h ! x" if "x \<in> set as" for x
          using that Cons.prems by (cases "x = a") auto
        then have "map (\<lambda>x. h[a := row'] ! x) as = map (\<lambda>x. h ! x) as"
          by (intro map_cong) auto
        then show ?thesis using Inr True r Cons.prems by simp
      qed
    next
      case False
      have ih: "drop_loop (map (\<lambda>a. h ! a) as) p idx =
           (fst (drop_loop_store as p idx h), map (\<lambda>a. snd (drop_loop_store as p idx h) ! a) as)"
        "\<forall>x. x \<notin> set as \<longrightarrow> snd (drop_loop_store as p idx h) ! x = h ! x"
        "length (snd (drop_loop_store as p idx h)) = length h"
        using Cons by simp_all
      have "a \<notin> set as" using Cons.prems by simp
      then have "snd (drop_loop_store as p idx h) ! a = h ! a" using ih(2) by blast
      then show ?thesis using Inr False ih by simp
    qed
  qed
qed

lemma drop_piece_store_sim:
  assumes "distinct b" and "\<forall>a\<in>set b. a < length h"
  shows "drop_piece (contents h b) p c =
           (fst (drop_piece_store b p c h), contents (snd (drop_piece_store b p c h)) b)
         \<and> length (snd (drop_piece_store b p c h)) = length h
         \<and> (\<forall>a. a \<notin> set b \<longrightarrow> snd (drop_piece_store b p c h) ! a = h ! a)"
proof -
  have "distinct (rev b)" "\<forall>a\<in>set (rev b). a < length h" using assms by simp_all
  from drop_loop_store_sim[OF this, of p "c - 1"] show ?thesis
    by (simp add: drop_piece_def drop_piece_store_def contents_def rev_map)
qed


text \<open>
  Claim C7, as the code has it. A column of a non-empty board is in \<open>get_free_columns\<close>
  exactly when its top cell is 0. On a rectangular board whose rows are distinct row objects,
  for a column \<open>1 \<le> column \<le> num_cols\<close> that has an empty cell, \<open>drop_piece\<close> returns True
  and writes the player into the lowest empty cell of the column (the row \<open>i\<close> with every
  cell of the column below it occupied), changing no other cell of the board and no other
  row object; the free columns after the drop are a subsequence, hence a subset, of those
  before; and the drop preserves gravity.
\<close>

theorem drop_piece_store_lowest_empty:
  "(b0 \<noteq> [] \<longrightarrow>
      (\<exists>fs. get_free_columns b0 = Inr fs
         \<and> (\<forall>c. c \<in> set fs \<longleftrightarrow> 1 \<le> c \<and> c \<le> int (length (hd b0)) \<and> hd b0 ! nat (c - 1) = 0)))
   \<and> (distinct b \<and> list_all (\<lambda>a. a < length h) b \<and> rect (contents h b)
        \<and> 1 \<le> column \<and> column \<le> int (length (hd (contents h b)))
        \<and> column_has_empty (contents h b) (nat (column - 1))
      \<longrightarrow> (\<exists>h' i fs fs'.
            drop_piece_store b player column h = (Inr True, h')
          \<and> length h' = length h \<and> (\<forall>a. a \<notin> set b \<longrightarrow> h' ! a = h ! a)
          \<and> i < length b \<and> contents h b ! i ! nat (column - 1) = 0
          \<and> (\<forall>i'. i < i' \<and> i' < length b \<longrightarrow> contents h b ! i' ! nat (column - 1) \<noteq> 0)
          \<and> contents h' b = (contents h b)[i := (contents h b ! i)[nat (column - 1) := player]]
          \<and> get_free_columns (contents h b) = Inr fs
          \<and> get_free_columns (contents h' b) = Inr fs'
          \<and> subseq fs' fs \<and> set fs' \<subseteq> set fs
          \<and> (gravity (contents h b) \<longrightarrow> gravity (contents h' b))))"
proof (intro conjI impI)
  assume ne: "b0 \<noteq> []"
  let ?fs = "map (\<lambda>i. int i + 1) (filter (\<lambda>i. hd b0 ! i = 0) [0..<length (hd b0)])"
  have "get_free_columns b0 = Inr ?fs" by (rule get_free_columns_eq[OF ne])
  moreover have "\<forall>c. c \<in> set ?fs \<longleftrightarrow> 1 \<le> c \<and> c \<le> int (length (hd b0)) \<and> hd b0 ! nat (c - 1) = 0"
    by (intro allI) (rule free_column_iff)
  ultimately have "get_free_columns b0 = Inr ?fs
         \<and> (\<forall>c. c \<in> set ?fs \<longleftrightarrow> 1 \<le> c \<and> c \<le> int (length (hd b0)) \<and> hd b0 ! nat (c - 1) = 0)"
    by (rule conjI)
  then show "\<exists>fs. get_free_columns b0 = Inr fs
         \<and> (\<forall>c. c \<in> set fs \<longleftrightarrow> 1 \<le> c \<and> c \<le> int (length (hd b0)) \<and> hd b0 ! nat (c - 1) = 0)"
    by (rule exI)
next
  let ?B = "contents h b"
  let ?j = "nat (column - 1)"
  assume a: "distinct b \<and> list_all (\<lambda>a. a < length h) b \<and> rect ?B
        \<and> 1 \<le> column \<and> column \<le> int (length (hd ?B))
        \<and> column_has_empty ?B ?j"
  then have d: "distinct b" and v: "\<forall>a\<in>set b. a < length h" and r: "rect ?B"
    and c: "1 \<le> column" "column \<le> int (length (hd ?B))" and e: "column_has_empty ?B ?j"
    by (simp_all add: list_all_iff)
  define h' where "h' = snd (drop_piece_store b player column h)"
  from drop_piece_store_sim[OF d v, of player column]
  have sim: "drop_piece ?B player column = (fst (drop_piece_store b player column h), contents h' b)"
    and len: "length h' = length h"
    and frame: "\<forall>a. a \<notin> set b \<longrightarrow> h' ! a = h ! a"
    unfolding h'_def by simp_all
  from drop_value_lowest_empty[OF r c e, of player] obtain i fs fs' where
    i: "i < length ?B" "?B ! i ! ?j = 0"
    "\<forall>i'. i < i' \<and> i' < length ?B \<longrightarrow> ?B ! i' ! ?j \<noteq> 0"
    "drop_piece ?B player column = (Inr True, ?B[i := (?B ! i)[?j := player]])"
    "get_free_columns ?B = Inr fs"
    "get_free_columns (snd (drop_piece ?B player column)) = Inr fs'"
    "subseq fs' fs" "set fs' \<subseteq> set fs"
    "gravity ?B \<longrightarrow> gravity (snd (drop_piece ?B player column))"
    by (elim exE conjE)
  have lb: "length ?B = length b" by (simp add: contents_def)
  from sim i(4) have f: "fst (drop_piece_store b player column h) = Inr True"
    and cb: "contents h' b = ?B[i := (?B ! i)[?j := player]]" by simp_all
  have dps: "drop_piece_store b player column h = (Inr True, h')"
    using f unfolding h'_def by (simp add: prod_eq_iff)
  have s: "snd (drop_piece ?B player column) = contents h' b" using sim by simp
  have "drop_piece_store b player column h = (Inr True, h')
          \<and> length h' = length h \<and> (\<forall>a. a \<notin> set b \<longrightarrow> h' ! a = h ! a)
          \<and> i < length b \<and> ?B ! i ! ?j = 0
          \<and> (\<forall>i'. i < i' \<and> i' < length b \<longrightarrow> ?B ! i' ! ?j \<noteq> 0)
          \<and> contents h' b = ?B[i := (?B ! i)[?j := player]]
          \<and> get_free_columns ?B = Inr fs
          \<and> get_free_columns (contents h' b) = Inr fs'
          \<and> subseq fs' fs \<and> set fs' \<subseteq> set fs
          \<and> (gravity ?B \<longrightarrow> gravity (contents h' b))"
    using dps len frame i(1,2,3) cb i(5) i(6) i(7) i(8) i(9) unfolding s lb by (intro conjI)
  then show "\<exists>h' i fs fs'.
            drop_piece_store b player column h = (Inr True, h')
          \<and> length h' = length h \<and> (\<forall>a. a \<notin> set b \<longrightarrow> h' ! a = h ! a)
          \<and> i < length b \<and> ?B ! i ! ?j = 0
          \<and> (\<forall>i'. i < i' \<and> i' < length b \<longrightarrow> ?B ! i' ! ?j \<noteq> 0)
          \<and> contents h' b = ?B[i := (?B ! i)[?j := player]]
          \<and> get_free_columns ?B = Inr fs
          \<and> get_free_columns (contents h' b) = Inr fs'
          \<and> subseq fs' fs \<and> set fs' \<subseteq> set fs
          \<and> (gravity ?B \<longrightarrow> gravity (contents h' b))"
    by (intro exI)
qed

text \<open>
  The board \<^verbatim>\<open>[[0, 0]] * 2\<close> has one row object twice: it is rectangular and its column 1
  has an empty cell, and the drop into column 1 writes the one row object, so both rows of
  the board change and column 1 leaves the free columns.
\<close>

theorem drop_piece_shared_rows_counterexample:
  "rect (contents [[0, 0]] [0, 0]) \<and> column_has_empty (contents [[0, 0]] [0, 0]) 0
   \<and> contents [[0, 0]] [0, 0] = [[0, 0], [0, 0]]
   \<and> drop_piece_store [0, 0] 1 1 [[0, 0]] = (Inr True, [[1, 0]])
   \<and> contents [[1, 0]] [0, 0] = [[1, 0], [1, 0]]
   \<and> get_free_columns [[1, 0], [1, 0]] = Inr [2]"
  by (simp add: rect_def column_has_empty_def contents_def drop_piece_store_def py_getitem_def
      py_setitem_def get_free_columns_def enumerate_eq_zip)

theorem drop_piece_store_lowest_empty_witness:
  "distinct [0, 1 :: nat] \<and> list_all (\<lambda>a. a < length [[0, 0], [0, 1 :: int]]) [0, 1]
   \<and> rect (contents [[0, 0], [0, 1]] [0, 1])
   \<and> column_has_empty (contents [[0, 0], [0, 1]] [0, 1]) 1
   \<and> drop_piece_store [0, 1] 2 2 [[0, 0], [0, 1]] = (Inr True, [[0, 2], [0, 1]])
   \<and> get_free_columns [[0, 2], [0, 1]] = Inr [1]
   \<and> gravity (contents [[0, 2], [0, 1]] [0, 1])"
proof -
  have c: "contents [[0, 0], [0, 1]] [0, 1] = [[0, 0], [0, 1]]" by (simp add: contents_def)
  have d: "distinct [0, 1 :: nat]" by simp
  have v: "list_all (\<lambda>a. a < length [[0, 0], [0, 1 :: int]]) [0, 1]" by simp
  have r: "rect (contents [[0, 0], [0, 1]] [0, 1])" unfolding c by (simp add: rect_def)
  have e: "column_has_empty (contents [[0, 0], [0, 1]] [0, 1]) (nat (2 - 1))"
    unfolding c by (simp add: column_has_empty_def)
  have g: "gravity (contents [[0, 0], [0, 1]] [0, 1])" unfolding c by code_simp
  have dp: "drop_piece_store [0, 1] 2 2 [[0, 0], [0, 1]] = (Inr True, [[0, 2], [0, 1]])"
    by code_simp
  have f: "get_free_columns [[0, 2], [0, 1]] = Inr [1]" by code_simp
  have l: "(1::int) \<le> 2 \<and> 2 \<le> int (length (hd (contents [[0, 0], [0, 1]] [0, 1])))"
    unfolding c by simp
  from drop_piece_store_lowest_empty[of "[]" "[0, 1]" "[[0, 0], [0, 1]]" 2 2] d v r l e
  obtain h' where "drop_piece_store [0, 1] 2 2 [[0, 0], [0, 1]] = (Inr True, h')"
    "gravity (contents [[0, 0], [0, 1]] [0, 1]) \<longrightarrow> gravity (contents h' [0, 1])"
    by blast
  then have "gravity (contents [[0, 2], [0, 1]] [0, 1])" using g unfolding dp by simp
  then show ?thesis using d v r e dp f by simp
qed

text \<open>
  Claim C8. \<open>copy_and_drop_piece\<close> leaves every row object that existed before the call as
  it was, so the caller's board keeps its cells. When it returns, the rows of the board it
  returns are new objects, none shared with the caller's board, and their cells are those of
  the caller's board with the drop applied. When the drop raises, so does the call.
\<close>

theorem copy_and_drop_piece_fresh_copy:
  assumes "\<forall>a\<in>set b. a < length h"
  shows "case copy_and_drop_piece_store b player column h of (r, h') \<Rightarrow>
     (\<forall>a < length h. h' ! a = h ! a) \<and> contents h' b = contents h b \<and>
     (case r of
        Inl e \<Rightarrow> copy_and_drop_piece (contents h b) player column = Inl e
      | Inr new_board \<Rightarrow>
          copy_and_drop_piece (contents h b) player column = Inr (contents h' new_board)
          \<and> set new_board \<inter> set b = {} \<and> distinct new_board
          \<and> length new_board = length b
          \<and> (\<forall>a\<in>set new_board. length h \<le> a \<and> a < length h'))"
proof -
  define nb where "nb = [length h ..< length h + length b]"
  define h1 where "h1 = h @ map (\<lambda>a. h ! a) b"
  define r where "r = fst (drop_piece_store nb player column h1)"
  define h2 where "h2 = snd (drop_piece_store nb player column h1)"
  have d: "distinct nb" and v: "\<forall>a\<in>set nb. a < length h1"
    by (simp_all add: nb_def h1_def)
  have c1: "contents h1 nb = contents h b"
    unfolding contents_def nb_def h1_def
    by (rule nth_equalityI) (simp_all add: nth_append)
  from drop_piece_store_sim[OF d v, of player column]
  have sim: "drop_piece (contents h b) player column = (r, contents h2 nb)"
    and len: "length h2 = length h1"
    and frame: "\<forall>a. a \<notin> set nb \<longrightarrow> h2 ! a = h1 ! a"
    unfolding c1 r_def h2_def by simp_all
  have old: "\<forall>a < length h. h2 ! a = h ! a"
    using frame by (simp add: nb_def h1_def nth_append)
  then have cb: "contents h2 b = contents h b"
    using assms by (simp add: contents_def)
  have disj: "set nb \<inter> set b = {}" using assms by (auto simp: nb_def)
  have rng: "\<forall>a\<in>set nb. length h \<le> a \<and> a < length h2"
    using len by (simp add: nb_def h1_def)
  have res: "copy_and_drop_piece_store b player column h =
     (case r of Inl e \<Rightarrow> (Inl e, h2) | Inr _ \<Rightarrow> (Inr nb, h2))"
    by (simp add: copy_and_drop_piece_store_def Let_def nb_def h1_def r_def h2_def
        split: prod.splits sum.splits)
  show ?thesis
  proof (cases r)
    case (Inl e)
    then show ?thesis using res old cb sim by (simp add: copy_and_drop_piece_def)
  next
    case (Inr ok)
    then show ?thesis using res old cb sim disj d rng
      by (simp add: copy_and_drop_piece_def nb_def)
  qed
qed

theorem copy_and_drop_piece_fresh_copy_witness:
  "copy_and_drop_piece_store [0, 1] 1 2 [[0, 0], [0, 2]] =
     (Inr [2, 3], [[0, 0], [0, 2], [0, 1], [0, 2]])
   \<and> copy_and_drop_piece [[0, 0], [0, 2]] 1 2 = Inr [[0, 1], [0, 2]]"
proof -
  have v: "\<forall>a\<in>set [0, 1::nat]. a < length [[0, 0], [0, 2::int]]" by simp
  have c: "copy_and_drop_piece_store [0, 1] 1 2 [[0, 0], [0, 2]] =
     (Inr [2, 3], [[0, 0], [0, 2], [0, 1], [0, 2]])" by code_simp
  from copy_and_drop_piece_fresh_copy[OF v, of 1 2]
  have "copy_and_drop_piece (contents [[0, 0], [0, 2]] [0, 1]) 1 2 =
          Inr (contents [[0, 0], [0, 2], [0, 1], [0, 2]] [2, 3])"
    unfolding c by simp
  then show ?thesis using c by (simp add: contents_def)
qed

theorem drop_piece_failure_leaves_board_witness:
  "rect [[1, 0], [2, 0]] \<and> \<not> column_has_empty [[1, 0], [2, 0]] 0
   \<and> drop_piece [[1, 0], [2, 0]] 1 1 = (Inr False, [[1, 0], [2, 0]])
   \<and> drop_piece [[1, 0], [2, 0]] 1 3 = (Inl IndexError, [[1, 0], [2, 0]])"
proof -
  have r: "rect [[1, 0], [2, 0]]" by (simp add: rect_def)
  have e: "\<not> column_has_empty [[1, 0], [2, 0]] (nat (1 - 1))"
    by (simp add: column_has_empty_def)
  have "drop_piece [[1, 0], [2, 0]] 1 1 = (Inr False, [[1, 0], [2, 0]])"
    using drop_piece_failure_leaves_board[of "[[1, 0], [2, 0]]" 1 1] r e by simp
  moreover have "drop_piece [[1, 0], [2, 0]] 1 3 = (Inl IndexError, [[1, 0], [2, 0]])"
    using drop_piece_failure_leaves_board[of "[[1, 0], [2, 0]]" 1 3] r by simp
  ultimately show ?thesis using r e by simp
qed


section \<open>The line scanner on rectangular boards\<close>


lemma gen_of_total: "\<forall>x\<in>set xs. f x = Inr (g x) \<Longrightarrow> gen_of f xs = (map g xs, None)"
  by (induction xs) simp_all

lemma gen_of_enum:
  assumes "\<And>t. t < length xs \<Longrightarrow> f (t, xs ! t) = Inr (g t)"
  shows "gen_of f (enumerate 0 xs) = (map g [0..<length xs], None)"
proof -
  have "gen_of f (map (\<lambda>i. (i, xs ! i)) [0..<length xs]) =
        (map (\<lambda>(t, row). g t) (map (\<lambda>i. (i, xs ! i)) [0..<length xs]), None)"
    using assms by (intro gen_of_total) auto
  then show ?thesis by (simp add: enumerate_map_nth comp_def)
qed

lemma gen_chain_pure: "gen_chain (map (\<lambda>x. (h x, None)) xs) = (concat (map h xs), None)"
  by (induction xs) simp_all

lemma from_cells_pure: "pieces_in_a_row_from_cells (cells, None) = (line_runs cells, None)"
  by (simp add: line_runs_def pieces_in_a_row_from_cells_def split: prod.splits)

lemma bwp_length: "length (board_with_positions b) = length b"
  by (simp add: board_with_positions_def)

lemma bwp_row:
  "i < length b \<Longrightarrow>
   board_with_positions b ! i = map (\<lambda>j. ((int i, int j), b ! i ! j)) [0..<length (b ! i)]"
  by (simp add: board_with_positions_def enumerate_map_nth comp_def)

lemma bwp_row_length:
  "rect b \<Longrightarrow> i < length b \<Longrightarrow> length (board_with_positions b ! i) = length (hd b)"
  by (simp add: bwp_row rect_nth)

lemma bwp_cell:
  "rect b \<Longrightarrow> i < length b \<Longrightarrow> j < length (hd b) \<Longrightarrow>
   board_with_positions b ! i ! j = ((int i, int j), b ! i ! j)"
  by (simp add: bwp_row rect_nth)

lemma bwp_get:
  "rect b \<Longrightarrow> i < length b \<Longrightarrow> j < length (hd b) \<Longrightarrow>
   py_getitem (board_with_positions b ! i) (int j) = Inr ((int i, int j), b ! i ! j)"
  by (simp add: py_getitem_nat bwp_row_length bwp_cell)


lemma gen_of_map:
  "\<forall>i\<in>set is. f (h i) = Inr (g i) \<Longrightarrow> gen_of f (map h is) = (map g is, None)"
  by (induction "is") simp_all

lemma gen_of_nth:
  assumes "\<And>t. t < length xs \<Longrightarrow> f (xs ! t) = Inr (g t)"
  shows "gen_of f xs = (map g [0..<length xs], None)"
proof -
  have "gen_of f (map (\<lambda>i. xs ! i) [0..<length xs]) = (map g [0..<length xs], None)"
    using assms by (intro gen_of_map) simp
  then show ?thesis by (simp add: map_nth)
qed

lemma line_eq:
  assumes "\<And>t. t < n \<Longrightarrow> g t = (shift s d (int t), cell_at b (shift s d (int t)))"
  shows "map g [0..<n] = line b s d n"
  unfolding line_def using assms by (intro map_cong) simp_all

lemma horizontal_line:
  assumes "rect b" "i < length b"
  shows "board_with_positions b ! i = line b (int i, 0) (0, 1) (length (hd b))"
  using assms
  by (simp add: bwp_row rect_nth line_def shift_def cell_at_def)

lemma vertical_line:
  assumes "rect b" "j < length (hd b)"
  shows "gen_of (\<lambda>row. py_getitem row (int j)) (board_with_positions b) =
           (line b (0, int j) (1, 0) (length b), None)"
proof -
  have "gen_of (\<lambda>row. py_getitem row (int j)) (board_with_positions b) =
        (map (\<lambda>t. ((int t, int j), b ! t ! j)) [0..<length (board_with_positions b)], None)"
    using assms by (intro gen_of_nth) (simp add: bwp_get bwp_length)
  moreover have "map (\<lambda>t. ((int t, int j), b ! t ! j)) [0..<length b] =
                 line b (0, int j) (1, 0) (length b)"
    by (intro line_eq) (simp add: shift_def cell_at_def)
  ultimately show ?thesis by (simp add: bwp_length)
qed

lemma diag_down_top:
  assumes "rect b" "sc < length (hd b) - 1"
  shows "gen_of (\<lambda>(offset, row). py_getitem row (int sc + int offset))
           (enumerate 0 (take (length (hd b) - sc) (board_with_positions b))) =
         (line b (0, int sc) (1, 1) (min (length b) (length (hd b) - sc)), None)"
proof -
  let ?xs = "take (length (hd b) - sc) (board_with_positions b)"
  have len: "length ?xs = min (length b) (length (hd b) - sc)" by (simp add: bwp_length)
  have "gen_of (\<lambda>(offset, row). py_getitem row (int sc + int offset)) (enumerate 0 ?xs) =
        (map (\<lambda>t. ((int t, int (sc + t)), b ! t ! (sc + t))) [0..<length ?xs], None)"
  proof (intro gen_of_enum)
    fix t assume "t < length ?xs"
    then have t: "t < length b" "sc + t < length (hd b)"
      unfolding len min_less_iff_conj by linarith+
    then show "(case (t, ?xs ! t) of (offset, row) \<Rightarrow> py_getitem row (int sc + int offset)) =
          Inr ((int t, int (sc + t)), b ! t ! (sc + t))"
      using bwp_get[OF assms(1) t] \<open>t < length ?xs\<close> by simp
  qed
  moreover have "map (\<lambda>t. ((int t, int (sc + t)), b ! t ! (sc + t)))
                   [0..<min (length b) (length (hd b) - sc)] =
                 line b (0, int sc) (1, 1) (min (length b) (length (hd b) - sc))"
    by (intro line_eq) (simp add: shift_def cell_at_def nat_add_distrib)
  ultimately show ?thesis unfolding len by simp
qed

lemma diag_down_left:
  assumes "rect b" "1 \<le> sr" "sr < length b - 1"
  shows "gen_of (\<lambda>(offset, row). py_getitem row (int offset))
           (enumerate 0 (take (length (hd b)) (drop sr (board_with_positions b)))) =
         (line b (int sr, 0) (1, 1) (min (length (hd b)) (length b - sr)), None)"
proof -
  let ?xs = "take (length (hd b)) (drop sr (board_with_positions b))"
  have len: "length ?xs = min (length (hd b)) (length b - sr)"
    by (simp add: bwp_length min.commute)
  have "gen_of (\<lambda>(offset, row). py_getitem row (int offset)) (enumerate 0 ?xs) =
        (map (\<lambda>t. ((int (sr + t), int t), b ! (sr + t) ! t)) [0..<length ?xs], None)"
  proof (intro gen_of_enum)
    fix t assume "t < length ?xs"
    then have t: "sr + t < length b" "t < length (hd b)"
      unfolding len min_less_iff_conj by linarith+
    then show "(case (t, ?xs ! t) of (offset, row) \<Rightarrow> py_getitem row (int offset)) =
          Inr ((int (sr + t), int t), b ! (sr + t) ! t)"
      using bwp_get[OF assms(1) t] \<open>t < length ?xs\<close> by (simp add: bwp_length)
  qed
  moreover have "map (\<lambda>t. ((int (sr + t), int t), b ! (sr + t) ! t))
                   [0..<min (length (hd b)) (length b - sr)] =
                 line b (int sr, 0) (1, 1) (min (length (hd b)) (length b - sr))"
    by (intro line_eq) (simp add: shift_def cell_at_def nat_add_distrib)
  ultimately show ?thesis unfolding len by simp
qed

lemma diag_up_bottom:
  assumes "rect b" "sc < length (hd b) - 1"
  shows "gen_of (\<lambda>(offset, row). py_getitem row (int sc + int offset))
           (enumerate 0 (take (length (hd b) - sc) (rev (board_with_positions b)))) =
         (line b (int (length b - 1), int sc) (- 1, 1) (min (length b) (length (hd b) - sc)),
          None)"
proof -
  let ?xs = "take (length (hd b) - sc) (rev (board_with_positions b))"
  have len: "length ?xs = min (length b) (length (hd b) - sc)" by (simp add: bwp_length)
  have "gen_of (\<lambda>(offset, row). py_getitem row (int sc + int offset)) (enumerate 0 ?xs) =
        (map (\<lambda>t. ((int (length b - 1 - t), int (sc + t)), b ! (length b - 1 - t) ! (sc + t)))
           [0..<length ?xs], None)"
  proof (intro gen_of_enum)
    fix t assume "t < length ?xs"
    then have t: "length b - 1 - t < length b" "sc + t < length (hd b)" and tl: "t < length b"
      unfolding len min_less_iff_conj by linarith+
    have "?xs ! t = board_with_positions b ! (length b - 1 - t)"
      using \<open>t < length ?xs\<close> tl by (simp add: rev_nth bwp_length)
    then show "(case (t, ?xs ! t) of (offset, row) \<Rightarrow> py_getitem row (int sc + int offset)) =
          Inr ((int (length b - 1 - t), int (sc + t)), b ! (length b - 1 - t) ! (sc + t))"
      using bwp_get[OF assms(1) t] by simp
  qed
  moreover have "map (\<lambda>t. ((int (length b - 1 - t), int (sc + t)),
                           b ! (length b - 1 - t) ! (sc + t)))
                   [0..<min (length b) (length (hd b) - sc)] =
                 line b (int (length b - 1), int sc) (- 1, 1)
                   (min (length b) (length (hd b) - sc))"
  proof (intro line_eq)
    fix t assume "t < min (length b) (length (hd b) - sc)"
    then have "int (length b - 1 - t) = int (length b - 1) - int t" by simp
    then show "((int (length b - 1 - t), int (sc + t)), b ! (length b - 1 - t) ! (sc + t)) =
       (shift (int (length b - 1), int sc) (- 1, 1) (int t),
        cell_at b (shift (int (length b - 1), int sc) (- 1, 1) (int t)))"
      by (simp add: shift_def cell_at_def nat_add_distrib nat_diff_distrib)
  qed
  ultimately show ?thesis unfolding len by simp
qed

lemma diag_up_left:
  assumes "rect b" "1 \<le> sr" "sr < length b - 1"
  shows "gen_of (\<lambda>(offset, row). py_getitem row (int offset))
           (enumerate 0
              (if int sr - int (length (hd b)) < 0
               then rev (take (Suc sr) (board_with_positions b))
               else rev (drop (Suc (nat (int sr - int (length (hd b)))))
                          (take (Suc sr) (board_with_positions b))))) =
         (line b (int sr, 0) (- 1, 1) (min (length (hd b)) (Suc sr)), None)"
proof -
  let ?C = "length (hd b)"
  let ?xs = "if int sr - int ?C < 0
               then rev (take (Suc sr) (board_with_positions b))
               else rev (drop (Suc (nat (int sr - int ?C)))
                          (take (Suc sr) (board_with_positions b)))"
  have len: "length ?xs = min ?C (Suc sr)"
    using assms(3) by (auto simp: bwp_length)
  have nth: "?xs ! t = board_with_positions b ! (sr - t)" if "t < min ?C (Suc sr)" for t
  proof (cases "int sr - int ?C < 0")
    case True
    then show ?thesis using that assms(3) by (simp add: rev_nth bwp_length)
  next
    case False
    then have "nat (int sr - int ?C) = sr - ?C" "?C \<le> sr" by simp_all
    moreover from this that have "Suc (sr - Suc t) = sr - t" by simp
    ultimately show ?thesis using that assms(3) False
      by (simp add: rev_nth bwp_length)
  qed
  have "gen_of (\<lambda>(offset, row). py_getitem row (int offset)) (enumerate 0 ?xs) =
        (map (\<lambda>t. ((int (sr - t), int t), b ! (sr - t) ! t)) [0..<length ?xs], None)"
  proof (intro gen_of_enum)
    fix t assume "t < length ?xs"
    then have tm: "t < min ?C (Suc sr)" using len by simp
    then have t: "sr - t < length b" "t < ?C" using assms(3) by simp_all
    show "(case (t, ?xs ! t) of (offset, row) \<Rightarrow> py_getitem row (int offset)) =
          Inr ((int (sr - t), int t), b ! (sr - t) ! t)"
      using bwp_get[OF assms(1) t] nth[OF tm] by simp
  qed
  moreover have "map (\<lambda>t. ((int (sr - t), int t), b ! (sr - t) ! t)) [0..<min ?C (Suc sr)] =
                 line b (int sr, 0) (- 1, 1) (min ?C (Suc sr))"
  proof (intro line_eq)
    fix t assume "t < min ?C (Suc sr)"
    then have "int (sr - t) = int sr - int t" by simp
    then show "((int (sr - t), int t), b ! (sr - t) ! t) =
       (shift (int sr, 0) (- 1, 1) (int t), cell_at b (shift (int sr, 0) (- 1, 1) (int t)))"
      by (simp add: shift_def cell_at_def nat_diff_distrib)
  qed
  ultimately show ?thesis unfolding len by simp
qed



lemma pieces_in_a_row_rect:
  assumes r: "rect b" and ne: "b \<noteq> []"
  shows "pieces_in_a_row b = (concat (map (spec_runs b) (line_specs b)), None)"
proof -
  let ?R = "length b" and ?C = "length (hd b)"
  let ?bwp = "board_with_positions b"
  let ?G = "\<lambda>sp. (spec_runs b sp, None :: error option)"
  have g0: "py_getitem b 0 = Inr (hd b)"
    using ne by (cases b) (simp_all add: py_getitem_def)
  have h1: "map (\<lambda>row. pieces_in_a_row_from_cells (row, None)) ?bwp =
            map ?G (map (\<lambda>i. ((int i, 0), (0, 1), ?C)) [0..<?R])"
  proof -
    have "map (\<lambda>row. pieces_in_a_row_from_cells (row, None)) (map (\<lambda>i. ?bwp ! i) [0..<?R]) =
          map ?G (map (\<lambda>i. ((int i, 0), (0, 1), ?C)) [0..<?R])"
      unfolding map_map using r
      by (intro map_cong) (simp_all add: horizontal_line from_cells_pure spec_runs_def)
    moreover have "map (\<lambda>i. ?bwp ! i) [0..<?R] = ?bwp"
      using map_nth[of ?bwp] by (simp add: bwp_length)
    ultimately show ?thesis by simp
  qed
  have h2: "map (\<lambda>column_index. pieces_in_a_row_from_cells
                    (gen_of (\<lambda>row. py_getitem row (int column_index)) ?bwp)) [0..<?C] =
            map ?G (map (\<lambda>j. ((0, int j), (1, 0), ?R)) [0..<?C])"
    unfolding map_map using r
    by (intro map_cong) (simp_all add: vertical_line from_cells_pure spec_runs_def)
  have h3: "map (\<lambda>starting_column. pieces_in_a_row_from_cells
                  (gen_of (\<lambda>(offset, row). py_getitem row (int starting_column + int offset))
                     (enumerate 0 (take (?C - starting_column) ?bwp)))) [0..<?C - 1] =
            map ?G (map (\<lambda>sc. ((0, int sc), (1, 1), min ?R (?C - sc))) [0..<?C - 1])"
    unfolding map_map using r
    by (intro map_cong) (simp_all add: diag_down_top from_cells_pure spec_runs_def)
  have h4: "map (\<lambda>starting_row. pieces_in_a_row_from_cells
                  (gen_of (\<lambda>(offset, row). py_getitem row (int offset))
                     (enumerate 0 (take ?C (drop starting_row ?bwp))))) [1..<?R - 1] =
            map ?G (map (\<lambda>sr. ((int sr, 0), (1, 1), min ?C (?R - sr))) [1..<?R - 1])"
    unfolding map_map using r
    by (intro map_cong) (simp_all add: diag_down_left from_cells_pure spec_runs_def)
  have h5: "map (\<lambda>starting_column. pieces_in_a_row_from_cells
                  (gen_of (\<lambda>(offset, row). py_getitem row (int starting_column + int offset))
                     (enumerate 0 (take (?C - starting_column) (rev ?bwp))))) [0..<?C - 1] =
            map ?G (map (\<lambda>sc. ((int (?R - 1), int sc), (- 1, 1), min ?R (?C - sc)))
                      [0..<?C - 1])"
    unfolding map_map using r
    by (intro map_cong) (simp_all add: diag_up_bottom from_cells_pure spec_runs_def)
  have e6: "pieces_in_a_row_from_cells
               (gen_of (\<lambda>(offset, row). py_getitem row (int offset))
                  (enumerate 0
                     (if int sr - int ?C < 0 then rev (take (Suc sr) ?bwp)
                      else rev (drop (Suc (nat (int sr - int ?C))) (take (Suc sr) ?bwp))))) =
            (?G \<circ> (\<lambda>sr. ((int sr, 0), (- 1, 1), min ?C (Suc sr)))) sr"
    if "sr \<in> set [1..<?R - 1]" for sr
  proof -
    from that have sr: "1 \<le> sr" "sr < ?R - 1" by simp_all
    show ?thesis
      unfolding diag_up_left[OF r sr] from_cells_pure by (simp add: spec_runs_def)
  qed
  have h6: "map (\<lambda>starting_row.
                  (let last_index = int starting_row - int ?C
                   in pieces_in_a_row_from_cells
                        (gen_of (\<lambda>(offset, row). py_getitem row (int offset))
                           (enumerate 0
                              (if last_index < 0 then rev (take (Suc starting_row) ?bwp)
                               else rev (drop (Suc (nat last_index))
                                           (take (Suc starting_row) ?bwp)))))))
                [1..<?R - 1] =
            map ?G (map (\<lambda>sr. ((int sr, 0), (- 1, 1), min ?C (Suc sr))) [1..<?R - 1])"
    unfolding map_map Let_def
    by (rule map_cong[OF refl]) (erule e6)
  have "pieces_in_a_row b = gen_chain (map ?G (line_specs b))"
    unfolding pieces_in_a_row_def g0 sum.case Let_def[of "length b"] Let_def[of "length (hd b)"]
      Let_def[of "board_with_positions b"] h1 h2 h3 h4 h5 h6
    by (simp add: line_specs_def Let_def)
  then show ?thesis by (simp add: gen_chain_pure)
qed



lemma runs_Nil: "runs cur acc [] = flush cur acc"
  by (simp add: runs_def)

lemma runs_Cons:
  "runs cur acc ((p, c) # cells) =
     (if c = cur then runs cur (acc @ [p]) cells else flush cur acc @ runs c [p] cells)"
  by (simp add: runs_def split: prod.splits)

lemma line_runs_runs: "line_runs cells = runs 0 [] cells"
  by (simp add: line_runs_def runs_def pieces_in_a_row_from_cells_def split: prod.splits)

lemma flush_mem: "(q, ps) \<in> set (flush cur acc) \<longleftrightarrow> q = cur \<and> ps = acc \<and> 2 \<le> length acc \<and> cur \<noteq> 0"
  by (auto simp: flush_def)

lemma runs_subseq: "subseq (concat (map snd (runs cur acc L))) (acc @ map fst L)"
proof (induction L arbitrary: cur acc)
  case Nil
  then show ?case by (simp add: runs_Nil flush_def)
next
  case (Cons x L)
  obtain p c where x: "x = (p, c)" by (cases x)
  show ?case
  proof (cases "c = cur")
    case True
    then show ?thesis using Cons[of cur "acc @ [p]"] by (simp add: x runs_Cons)
  next
    case False
    have "subseq (concat (map snd (flush cur acc))) acc" by (simp add: flush_def)
    moreover have "subseq (concat (map snd (runs c [p] L))) (p # map fst L)"
      using Cons[of c "[p]"] by simp
    ultimately have "subseq (concat (map snd (flush cur acc)) @ concat (map snd (runs c [p] L)))
                       (acc @ p # map fst L)"
      by (rule list_emb_append_mono)
    then show ?thesis using False by (simp add: x runs_Cons)
  qed
qed

lemma runs_complete_same:
  assumes "\<forall>x\<in>set S. snd x = q" and "B \<noteq> [] \<longrightarrow> snd (hd B) \<noteq> q" and "q \<noteq> 0"
    and "2 \<le> length acc + length S"
  shows "(q, acc @ map fst S) \<in> set (runs q acc (S @ B))"
  using assms
proof (induction S arbitrary: acc)
  case Nil
  show ?case
  proof (cases B)
    case Nil
    then show ?thesis using \<open>q \<noteq> 0\<close> Nil.prems(4) by (simp add: runs_Nil flush_def)
  next
    case (Cons y B')
    obtain p c where y: "y = (p, c)" by (cases y)
    then have "c \<noteq> q" using Nil.prems(2) Cons by simp
    then show ?thesis using \<open>q \<noteq> 0\<close> Nil.prems(4) Cons y by (simp add: runs_Cons flush_def)
  qed
next
  case (Cons x S)
  obtain p where x: "x = (p, q)" using Cons.prems(1) by (cases x) simp
  have "(q, (acc @ [p]) @ map fst S) \<in> set (runs q (acc @ [p]) (S @ B))"
    using Cons.prems by (intro Cons.IH) simp_all
  then show ?case by (simp add: x runs_Cons)
qed

lemma runs_complete:
  assumes "\<forall>x\<in>set S. snd x = q" and "B \<noteq> [] \<longrightarrow> snd (hd B) \<noteq> q" and "q \<noteq> 0"
    and "2 \<le> length S" and "A = [] \<longrightarrow> cur \<noteq> q" and "A \<noteq> [] \<longrightarrow> snd (last A) \<noteq> q"
  shows "(q, map fst S) \<in> set (runs cur acc (A @ S @ B))"
  using assms(5,6)
proof (induction A arbitrary: cur acc)
  case Nil
  obtain x S' where S: "S = x # S'" using assms(4) by (cases S) simp_all
  obtain p where x: "x = (p, q)" using assms(1) S by (cases x) simp
  have "(q, [p] @ map fst S') \<in> set (runs q [p] (S' @ B))"
    using assms S by (intro runs_complete_same) simp_all
  then show ?case using Nil by (simp add: S x runs_Cons)
next
  case (Cons a A)
  obtain p c where a: "a = (p, c)" by (cases a)
  have c: "A = [] \<longrightarrow> c \<noteq> q" "A \<noteq> [] \<longrightarrow> snd (last A) \<noteq> q"
    using Cons.prems a by auto
  show ?case
  proof (cases "c = cur")
    case True
    then show ?thesis using Cons.IH[of cur "acc @ [p]"] c by (simp add: a runs_Cons)
  next
    case False
    then show ?thesis using Cons.IH[of c "[p]"] c by (simp add: a runs_Cons)
  qed
qed

lemma runs_sound:
  assumes "(q, ps) \<in> set (runs cur acc L)"
  shows "q \<noteq> 0 \<and> 2 \<le> length ps \<and>
     ((q = cur \<and> (\<exists>S B. L = S @ B \<and> ps = acc @ map fst S \<and> (\<forall>x\<in>set S. snd x = cur)
                    \<and> (B \<noteq> [] \<longrightarrow> snd (hd B) \<noteq> cur)))
      \<or> (\<exists>A S B. L = A @ S @ B \<and> S \<noteq> [] \<and> ps = map fst S \<and> (\<forall>x\<in>set S. snd x = q)
                    \<and> (A = [] \<longrightarrow> cur \<noteq> q) \<and> (A \<noteq> [] \<longrightarrow> snd (last A) \<noteq> q)
                    \<and> (B \<noteq> [] \<longrightarrow> snd (hd B) \<noteq> q)))"
  using assms
proof (induction L arbitrary: cur acc)
  case Nil
  then show ?case by (auto simp: runs_Nil flush_mem)
next
  case (Cons x L)
  obtain p c where x: "x = (p, c)" by (cases x)
  let ?same = "\<lambda>cur acc L. \<exists>S B. L = S @ B \<and> ps = acc @ map fst S \<and> (\<forall>x\<in>set S. snd x = cur)
                    \<and> (B \<noteq> [] \<longrightarrow> snd (hd B) \<noteq> cur)"
  let ?later = "\<lambda>cur L. \<exists>A S B. L = A @ S @ B \<and> S \<noteq> [] \<and> ps = map fst S \<and> (\<forall>x\<in>set S. snd x = q)
                    \<and> (A = [] \<longrightarrow> cur \<noteq> q) \<and> (A \<noteq> [] \<longrightarrow> snd (last A) \<noteq> q)
                    \<and> (B \<noteq> [] \<longrightarrow> snd (hd B) \<noteq> q)"
  have later_step: "?later cur (x # L)" if "?later c L" "c = cur \<or> c \<noteq> q"
  proof -
    from that(1) obtain A S B where h: "L = A @ S @ B" "S \<noteq> []" "ps = map fst S"
      "\<forall>x\<in>set S. snd x = q" "A = [] \<longrightarrow> c \<noteq> q" "A \<noteq> [] \<longrightarrow> snd (last A) \<noteq> q"
      "B \<noteq> [] \<longrightarrow> snd (hd B) \<noteq> q" by blast
    have "x # L = (x # A) @ S @ B" using h(1) by simp
    moreover have "snd (last (x # A)) \<noteq> q" using h(5,6) x by auto
    ultimately show ?thesis using h(2,3,4,7) by (intro exI[of _ "x # A"] exI[of _ S] exI[of _ B]) simp
  qed
  show ?case
  proof (cases "c = cur")
    case True
    then have m: "(q, ps) \<in> set (runs cur (acc @ [p]) L)" using Cons.prems by (simp add: x runs_Cons)
    from Cons.IH[OF m] have q: "q \<noteq> 0" "2 \<le> length ps"
      and d: "(q = cur \<and> ?same cur (acc @ [p]) L) \<or> ?later cur L" by blast+
    from d show ?thesis
    proof
      assume a: "q = cur \<and> ?same cur (acc @ [p]) L"
      then obtain S B where h: "L = S @ B" "ps = (acc @ [p]) @ map fst S"
        "\<forall>x\<in>set S. snd x = cur" "B \<noteq> [] \<longrightarrow> snd (hd B) \<noteq> cur" by blast
      have "?same cur acc (x # L)"
        using h True x by (intro exI[of _ "x # S"] exI[of _ B]) simp
      then show ?thesis using q a by blast
    next
      assume "?later cur L"
      then have "?later cur (x # L)" using later_step True by blast
      then show ?thesis using q by blast
    qed
  next
    case False
    then have "(q, ps) \<in> set (flush cur acc) \<or> (q, ps) \<in> set (runs c [p] L)"
      using Cons.prems by (simp add: x runs_Cons)
    then show ?thesis
    proof
      assume "(q, ps) \<in> set (flush cur acc)"
      then have f: "q = cur" "ps = acc" "2 \<le> length acc" "cur \<noteq> 0" by (simp_all add: flush_mem)
      have "?same cur acc (x # L)"
        using f False x by (intro exI[of _ "[]"] exI[of _ "x # L"]) simp
      then show ?thesis using f by simp
    next
      assume m: "(q, ps) \<in> set (runs c [p] L)"
      from Cons.IH[OF m] have q: "q \<noteq> 0" "2 \<le> length ps"
        and d: "(q = c \<and> ?same c [p] L) \<or> ?later c L" by blast+
      from d have "?later cur (x # L)"
      proof
        assume a: "q = c \<and> ?same c [p] L"
        then obtain S B where h: "L = S @ B" "ps = [p] @ map fst S"
          "\<forall>x\<in>set S. snd x = c" "B \<noteq> [] \<longrightarrow> snd (hd B) \<noteq> c" by blast
        show ?thesis
          using h a False x by (intro exI[of _ "[]"] exI[of _ "x # S"] exI[of _ B]) simp
      next
        assume l: "?later c L"
        then obtain A S B where h: "L = A @ S @ B" "S \<noteq> []" "ps = map fst S"
          "\<forall>x\<in>set S. snd x = q" "A = [] \<longrightarrow> c \<noteq> q" "A \<noteq> [] \<longrightarrow> snd (last A) \<noteq> q"
          "B \<noteq> [] \<longrightarrow> snd (hd B) \<noteq> q" by blast
        have "x # L = (x # A) @ S @ B" using h(1) by simp
        moreover have "snd (last (x # A)) \<noteq> q" using h(5,6) x by auto
        ultimately show ?thesis
          using h(2,3,4,7) by (intro exI[of _ "x # A"] exI[of _ S] exI[of _ B]) simp
      qed
      then show ?thesis using q by blast
    qed
  qed
qed


lemma line_length: "length (line b s d n) = n"
  by (simp add: line_def)

lemma line_nth: "t < n \<Longrightarrow> line b s d n ! t = (shift s d (int t), cell_at b (shift s d (int t)))"
  by (simp add: line_def)

lemma shift_shift: "shift (shift s d a) d c = shift s d (a + c)"
  by (simp add: shift_def distrib_right)

lemma shift_zero: "shift s d 0 = s"
  by (simp add: shift_def)

lemma segment_nth: "t < m \<Longrightarrow> segment s d m ! t = shift s d (int t)"
  by (simp add: segment_def)

lemma segment_length: "length (segment s d m) = m"
  by (simp add: segment_def)

lemma line_runs_iff:
  "(q, ps) \<in> set (line_runs (line b s d n)) \<longleftrightarrow>
     q \<noteq> 0 \<and> (\<exists>i m. 2 \<le> m \<and> i + m \<le> n \<and> ps = segment (shift s d (int i)) d m
        \<and> (\<forall>t. i \<le> t \<and> t < i + m \<longrightarrow> cell_at b (shift s d (int t)) = q)
        \<and> (0 < i \<longrightarrow> cell_at b (shift s d (int i - 1)) \<noteq> q)
        \<and> (i + m < n \<longrightarrow> cell_at b (shift s d (int (i + m))) \<noteq> q))"
  (is "?lhs \<longleftrightarrow> ?rhs")
proof
  let ?L = "line b s d n"
  assume ?lhs
  then have "(q, ps) \<in> set (runs 0 [] ?L)" by (simp add: line_runs_runs)
  from runs_sound[OF this] have q: "q \<noteq> 0" and l2: "2 \<le> length ps"
    and "(q = 0 \<and> (\<exists>S B. ?L = S @ B \<and> ps = [] @ map fst S \<and> (\<forall>x\<in>set S. snd x = 0)
                    \<and> (B \<noteq> [] \<longrightarrow> snd (hd B) \<noteq> 0)))
      \<or> (\<exists>A S B. ?L = A @ S @ B \<and> S \<noteq> [] \<and> ps = map fst S \<and> (\<forall>x\<in>set S. snd x = q)
                    \<and> (A = [] \<longrightarrow> 0 \<noteq> q) \<and> (A \<noteq> [] \<longrightarrow> snd (last A) \<noteq> q)
                    \<and> (B \<noteq> [] \<longrightarrow> snd (hd B) \<noteq> q))"
    by blast+
  with q have "\<exists>A S B. ?L = A @ S @ B \<and> S \<noteq> [] \<and> ps = map fst S \<and> (\<forall>x\<in>set S. snd x = q)
                    \<and> (A = [] \<longrightarrow> 0 \<noteq> q) \<and> (A \<noteq> [] \<longrightarrow> snd (last A) \<noteq> q)
                    \<and> (B \<noteq> [] \<longrightarrow> snd (hd B) \<noteq> q)"
    by blast
  then obtain A S B where h: "?L = A @ S @ B" "S \<noteq> []"
    "ps = map fst S" "\<forall>x\<in>set S. snd x = q" "A \<noteq> [] \<longrightarrow> snd (last A) \<noteq> q"
    "B \<noteq> [] \<longrightarrow> snd (hd B) \<noteq> q" by blast
  define i where "i = length A"
  define m where "m = length S"
  have len: "i + m + length B = n" using arg_cong[OF h(1), of length]
    by (simp add: line_length i_def m_def)
  have S_nth: "S ! t = ?L ! (i + t)" if "t < m" for t
    using that unfolding h(1) i_def m_def by (simp add: nth_append)
  have cells: "cell_at b (shift s d (int t)) = q" if "i \<le> t" "t < i + m" for t
  proof -
    have "t - i < m" using that by simp
    then have "S ! (t - i) \<in> set S" by (simp add: m_def)
    then have "snd (S ! (t - i)) = q" using h(4) by blast
    moreover have "S ! (t - i) = ?L ! t" using S_nth[OF \<open>t - i < m\<close>] that by simp
    moreover have "t < n" using that len by simp
    ultimately show ?thesis by (simp add: line_nth)
  qed
  have ps: "ps = segment (shift s d (int i)) d m"
  proof (rule nth_equalityI)
    show "length ps = length (segment (shift s d (int i)) d m)"
      by (simp add: h(3) segment_length m_def)
  next
    fix t assume "t < length ps"
    then have t: "t < m" by (simp add: h(3) m_def)
    then have "i + t < n" using len by simp
    then show "ps ! t = segment (shift s d (int i)) d m ! t"
      using t S_nth[OF t] by (simp add: h(3) m_def segment_nth line_nth shift_shift)
  qed
  have before: "cell_at b (shift s d (int i - 1)) \<noteq> q" if "0 < i"
  proof -
    have "A \<noteq> []" using that by (simp add: i_def)
    then have "last A = ?L ! (i - 1)"
      unfolding h(1) i_def by (simp add: last_conv_nth nth_append)
    moreover have "i - 1 < n" using that len by simp
    moreover have "int (i - 1) = int i - 1" using that by simp
    ultimately show ?thesis using h(5) \<open>A \<noteq> []\<close> by (simp add: line_nth)
  qed
  have after: "cell_at b (shift s d (int (i + m))) \<noteq> q" if "i + m < n"
  proof -
    have "B \<noteq> []" using that len by auto
    then have "hd B = ?L ! (i + m)"
      unfolding h(1) i_def m_def by (simp add: hd_conv_nth nth_append)
    then show ?thesis using h(6) \<open>B \<noteq> []\<close> that by (simp add: line_nth)
  qed
  have "2 \<le> m" using l2 by (simp add: h(3) m_def)
  moreover have "i + m \<le> n" using len by simp
  ultimately have "2 \<le> m \<and> i + m \<le> n \<and> ps = segment (shift s d (int i)) d m
        \<and> (\<forall>t. i \<le> t \<and> t < i + m \<longrightarrow> cell_at b (shift s d (int t)) = q)
        \<and> (0 < i \<longrightarrow> cell_at b (shift s d (int i - 1)) \<noteq> q)
        \<and> (i + m < n \<longrightarrow> cell_at b (shift s d (int (i + m))) \<noteq> q)"
    using ps cells before after by simp
  then have "\<exists>i m. 2 \<le> m \<and> i + m \<le> n \<and> ps = segment (shift s d (int i)) d m
        \<and> (\<forall>t. i \<le> t \<and> t < i + m \<longrightarrow> cell_at b (shift s d (int t)) = q)
        \<and> (0 < i \<longrightarrow> cell_at b (shift s d (int i - 1)) \<noteq> q)
        \<and> (i + m < n \<longrightarrow> cell_at b (shift s d (int (i + m))) \<noteq> q)"
    by (intro exI)
  then show ?rhs using q by (rule conjI[rotated])
next
  let ?L = "line b s d n"
  assume r: ?rhs
  then have q: "q \<noteq> 0" by (rule conjunct1)
  from r have "\<exists>i m. 2 \<le> m \<and> i + m \<le> n \<and> ps = segment (shift s d (int i)) d m
        \<and> (\<forall>t. i \<le> t \<and> t < i + m \<longrightarrow> cell_at b (shift s d (int t)) = q)
        \<and> (0 < i \<longrightarrow> cell_at b (shift s d (int i - 1)) \<noteq> q)
        \<and> (i + m < n \<longrightarrow> cell_at b (shift s d (int (i + m))) \<noteq> q)"
    by (rule conjunct2)
  then obtain i m where hh: "2 \<le> m \<and> i + m \<le> n \<and> ps = segment (shift s d (int i)) d m
        \<and> (\<forall>t. i \<le> t \<and> t < i + m \<longrightarrow> cell_at b (shift s d (int t)) = q)
        \<and> (0 < i \<longrightarrow> cell_at b (shift s d (int i - 1)) \<noteq> q)
        \<and> (i + m < n \<longrightarrow> cell_at b (shift s d (int (i + m))) \<noteq> q)"
    by (elim exE)
  then have h: "2 \<le> m" "i + m \<le> n"
    "ps = segment (shift s d (int i)) d m"
    "\<forall>t. i \<le> t \<and> t < i + m \<longrightarrow> cell_at b (shift s d (int t)) = q"
    "0 < i \<longrightarrow> cell_at b (shift s d (int i - 1)) \<noteq> q"
    "i + m < n \<longrightarrow> cell_at b (shift s d (int (i + m))) \<noteq> q" by simp_all
  define A where "A = take i ?L"
  define S where "S = take m (drop i ?L)"
  define B where "B = drop (i + m) ?L"
  have "B = drop m (drop i ?L)" by (simp add: B_def add.commute)
  then have "S @ B = drop i ?L" unfolding S_def by (simp only: append_take_drop_id)
  then have L: "?L = A @ S @ B" by (simp add: A_def)
  have lenA: "length A = i" and lenS: "length S = m" and lenB: "length B = n - (i + m)"
    using h(2) by (simp_all add: A_def S_def B_def line_length)
  have S_nth: "S ! t = ?L ! (i + t)" if "t < m" for t
    using that h(2) by (simp add: S_def line_length)
  have c1: "\<forall>x\<in>set S. snd x = q"
  proof
    fix x assume "x \<in> set S"
    then obtain t where t: "t < m" "x = S ! t" unfolding in_set_conv_nth lenS by blast
    then have "i + t < n" using h(2) by simp
    moreover have "cell_at b (shift s d (int (i + t))) = q"
      using h(4)[rule_format, of "i + t"] t(1) by simp
    ultimately show "snd x = q" using t S_nth[OF t(1)] by (simp add: line_nth)
  qed
  have c2: "B \<noteq> [] \<longrightarrow> snd (hd B) \<noteq> q"
  proof
    assume "B \<noteq> []"
    then have "0 < length B" by simp
    then have lt: "i + m < n" unfolding lenB by simp
    then have "hd B = ?L ! (i + m)" by (simp add: B_def hd_drop_conv_nth line_length)
    then show "snd (hd B) \<noteq> q" using h(6) lt by (simp add: line_nth)
  qed
  have c3: "A \<noteq> [] \<longrightarrow> snd (last A) \<noteq> q"
  proof
    assume "A \<noteq> []"
    then have "0 < length A" by simp
    then have pos: "0 < i" unfolding lenA .
    then have "last A = ?L ! (i - 1)"
      using h(2) \<open>A \<noteq> []\<close> by (simp add: A_def last_conv_nth line_length)
    moreover have "i - 1 < n" "int (i - 1) = int i - 1" using pos h(2) by simp_all
    ultimately show "snd (last A) \<noteq> q" using h(5) pos by (simp add: line_nth)
  qed
  have "map fst S = ps"
  proof (rule nth_equalityI)
    show "length (map fst S) = length ps" by (simp add: lenS h(3) segment_length)
  next
    fix t assume "t < length (map fst S)"
    then have t: "t < m" by (simp add: lenS)
    then have "i + t < n" using h(2) by simp
    then show "map fst S ! t = ps ! t"
      using t S_nth[OF t] by (simp add: lenS h(3) segment_nth line_nth shift_shift)
  qed
  moreover have "(q, map fst S) \<in> set (runs 0 [] (A @ S @ B))"
    using c1 c2 c3 q h(1) by (intro runs_complete) (simp_all add: lenS)
  ultimately show ?lhs by (simp add: line_runs_runs L)
qed


section \<open>The runs the scanner yields\<close>



lemma spec_cases:
  assumes "sp \<in> set (line_specs b)"
  obtains (row) i where "i < length b" "sp = ((int i, 0), (0, 1), length (hd b))"
  | (col) j where "j < length (hd b)" "sp = ((0, int j), (1, 0), length b)"
  | (down_top) sc where "sc < length (hd b) - 1"
      "sp = ((0, int sc), (1, 1), min (length b) (length (hd b) - sc))"
  | (down_left) sr where "1 \<le> sr" "sr < length b - 1"
      "sp = ((int sr, 0), (1, 1), min (length (hd b)) (length b - sr))"
  | (up_bottom) sc where "sc < length (hd b) - 1"
      "sp = ((int (length b - 1), int sc), (- 1, 1), min (length b) (length (hd b) - sc))"
  | (up_left) sr where "1 \<le> sr" "sr < length b - 1"
      "sp = ((int sr, 0), (- 1, 1), min (length (hd b)) (Suc sr))"
  using assms unfolding line_specs_def Let_def set_append set_map set_upt Un_iff image_iff
  by (elim disjE bexE) (simp_all only: atLeastLessThan_iff, blast+)

lemma spec_row: "i < length b \<Longrightarrow> ((int i, 0), (0, 1), length (hd b)) \<in> set (line_specs b)"
  by (simp add: line_specs_def Let_def image_iff)

lemma spec_col: "j < length (hd b) \<Longrightarrow> ((0, int j), (1, 0), length b) \<in> set (line_specs b)"
  by (simp add: line_specs_def Let_def image_iff)

lemma spec_down_top:
  "sc < length (hd b) - 1 \<Longrightarrow>
   ((0, int sc), (1, 1), min (length b) (length (hd b) - sc)) \<in> set (line_specs b)"
  by (simp add: line_specs_def Let_def image_iff)

lemma spec_down_left:
  "1 \<le> sr \<Longrightarrow> sr < length b - 1 \<Longrightarrow>
   ((int sr, 0), (1, 1), min (length (hd b)) (length b - sr)) \<in> set (line_specs b)"
  by (simp add: line_specs_def Let_def image_iff)

lemma spec_up_bottom:
  "sc < length (hd b) - 1 \<Longrightarrow>
   ((int (length b - 1), int sc), (- 1, 1), min (length b) (length (hd b) - sc))
     \<in> set (line_specs b)"
  by (simp add: line_specs_def Let_def image_iff)

lemma spec_up_left:
  "1 \<le> sr \<Longrightarrow> sr < length b - 1 \<Longrightarrow>
   ((int sr, 0), (- 1, 1), min (length (hd b)) (Suc sr)) \<in> set (line_specs b)"
  by (simp add: line_specs_def Let_def image_iff)


lemma specs_full:
  assumes "sp \<in> set (line_specs b)"
  shows "full_line b sp"
  using assms
proof (cases rule: spec_cases)
  case (row i)
  then show ?thesis by (simp add: full_line_def directions_def shift_def in_board_def)
next
  case (col j)
  then show ?thesis by (simp add: full_line_def directions_def shift_def in_board_def)
next
  case (down_top sc)
  then show ?thesis
    by (auto simp: full_line_def directions_def shift_def in_board_def min_def)
next
  case (down_left sr)
  then show ?thesis
    by (auto simp: full_line_def directions_def shift_def in_board_def min_def)
next
  case (up_bottom sc)
  then show ?thesis
    by (auto simp: full_line_def directions_def shift_def in_board_def min_def)
next
  case (up_left sr)
  then show ?thesis
    by (auto simp: full_line_def directions_def shift_def in_board_def min_def)
qed

lemma shift_eq_iff:
  "shift s d t = p \<longleftrightarrow> fst p = fst s + t * fst d \<and> snd p = snd s + t * snd d"
  by (cases p) (auto simp: shift_def)

lemma coverage:
  assumes d: "d \<in> set directions" and p: "in_board b p" and p1: "in_board b (shift p d 1)"
  shows "\<exists>s n t. (s, d, n) \<in> set (line_specs b) \<and> t < n \<and> p = shift s d (int t)"
proof -
  obtain r c where rc: "p = (r, c)" by (cases p)
  define i where "i = nat r"
  define j where "j = nat c"
  have ij: "r = int i" "c = int j" "i < length b" "j < length (hd b)"
    using p by (simp_all add: rc in_board_def i_def j_def nat_less_iff)
  from d consider "d = (0, 1)" | "d = (1, 0)" | "d = (1, 1)" | "d = (- 1, 1)"
    by (auto simp: directions_def)
  then show ?thesis
  proof cases
    case 1
    have "((int i, 0), d, length (hd b)) \<in> set (line_specs b)"
      unfolding 1 using ij(3) by (rule spec_row)
    moreover have "p = shift (int i, 0) d (int j)" by (simp add: rc ij shift_def 1)
    ultimately show ?thesis using ij(4) by blast
  next
    case 2
    have "((0, int j), d, length b) \<in> set (line_specs b)"
      unfolding 2 using ij(4) by (rule spec_col)
    moreover have "p = shift (0, int j) d (int i)" by (simp add: rc ij shift_def 2)
    ultimately show ?thesis using ij(3) by blast
  next
    case 3
    have nx: "i + 1 < length b" "j + 1 < length (hd b)"
      using p1 by (simp_all add: rc ij shift_def 3 in_board_def)
    show ?thesis
    proof (cases "i \<le> j")
      case True
      have "((0, int (j - i)), d, min (length b) (length (hd b) - (j - i))) \<in> set (line_specs b)"
        unfolding 3 using nx by (intro spec_down_top) simp
      moreover have "p = shift (0, int (j - i)) d (int i)"
        using True by (simp add: rc ij shift_def 3)
      moreover have "i < min (length b) (length (hd b) - (j - i))"
        using True ij(3,4) by simp
      ultimately show ?thesis by blast
    next
      case False
      have "((int (i - j), 0), d, min (length (hd b)) (length b - (i - j))) \<in> set (line_specs b)"
        unfolding 3 using nx False by (intro spec_down_left) simp_all
      moreover have "p = shift (int (i - j), 0) d (int j)"
        using False by (simp add: rc ij shift_def 3)
      moreover have "j < min (length (hd b)) (length b - (i - j))"
        using False ij(3,4) by simp
      ultimately show ?thesis by blast
    qed
  next
    case 4
    have nx: "1 \<le> i" "j + 1 < length (hd b)"
      using p1 by (simp_all add: rc ij shift_def 4 in_board_def)
    show ?thesis
    proof (cases "length b - 1 \<le> i + j")
      case True
      define t where "t = length b - 1 - i"
      define sc where "sc = j - t"
      have tj: "t \<le> j" using True ij(3) by (simp add: t_def)
      have m: "((int (length b - 1), int sc), d, min (length b) (length (hd b) - sc))
              \<in> set (line_specs b)"
        unfolding 4 using nx tj by (intro spec_up_bottom) (simp add: sc_def)
      have "int (length b - 1) - int t = int i" using ij(3) unfolding t_def by linarith
      moreover have "int sc + int t = int j" using tj unfolding sc_def by linarith
      ultimately have e: "p = shift (int (length b - 1), int sc) d (int t)"
        by (simp add: rc ij(1,2) shift_def 4)
      have l: "t < min (length b) (length (hd b) - sc)"
        using tj ij(3,4) unfolding sc_def t_def min_less_iff_conj by linarith
      from m l e show ?thesis by blast
    next
      case False
      have "((int (i + j), 0), d, min (length (hd b)) (Suc (i + j))) \<in> set (line_specs b)"
        unfolding 4 using nx False by (intro spec_up_left) simp_all
      moreover have "p = shift (int (i + j), 0) d (int j)"
        by (simp add: rc ij shift_def 4)
      moreover have "j < min (length (hd b)) (Suc (i + j))"
        using ij(4) by simp
      ultimately show ?thesis by blast
    qed
  qed
qed

lemma unique_line:
  assumes f1: "full_line b (s1, d, n1)" and f2: "full_line b (s2, d, n2)"
    and t: "t1 < n1" "t2 < n2" and e: "shift s1 d (int t1) = shift s2 d (int t2)"
  shows "s1 = s2 \<and> n1 = n2"
proof -
  have in1: "\<And>t. t < n1 \<Longrightarrow> in_board b (shift s1 d (int t))"
    and out1: "\<not> in_board b (shift s1 d (- 1))" "\<not> in_board b (shift s1 d (int n1))"
    using f1 by (simp_all add: full_line_def)
  have in2: "\<And>t. t < n2 \<Longrightarrow> in_board b (shift s2 d (int t))"
    and out2: "\<not> in_board b (shift s2 d (- 1))" "\<not> in_board b (shift s2 d (int n2))"
    using f2 by (simp_all add: full_line_def)
  have s1: "s1 = shift s2 d (int t2 - int t1)"
    using e by (cases s1; cases s2) (simp add: shift_def algebra_simps)
  have s2: "s2 = shift s1 d (int t1 - int t2)"
    using e by (cases s1; cases s2) (simp add: shift_def algebra_simps)
  have "t1 = t2"
  proof (rule ccontr)
    assume "t1 \<noteq> t2"
    then consider "t1 < t2" | "t2 < t1" by linarith
    then show False
    proof cases
      case 1
      have "shift s1 d (- 1) = shift s2 d ((int t2 - int t1) + (- 1))"
        by (subst s1) (simp only: shift_shift)
      moreover have "(int t2 - int t1) + (- 1) = int (t2 - t1 - 1)" using 1 by simp
      ultimately have "shift s1 d (- 1) = shift s2 d (int (t2 - t1 - 1))" by simp
      moreover have "t2 - t1 - 1 < n2" using 1 t by simp
      ultimately show False using in2 out1(1) by simp
    next
      case 2
      have "shift s2 d (- 1) = shift s1 d ((int t1 - int t2) + (- 1))"
        by (subst s2) (simp only: shift_shift)
      moreover have "(int t1 - int t2) + (- 1) = int (t1 - t2 - 1)" using 2 by simp
      ultimately have "shift s2 d (- 1) = shift s1 d (int (t1 - t2 - 1))" by simp
      moreover have "t1 - t2 - 1 < n1" using 2 t by simp
      ultimately show False using in1 out2(1) by simp
    qed
  qed
  then have ss: "s1 = s2" using s1 by (simp add: shift_zero)
  have "n1 = n2"
  proof (rule ccontr)
    assume "n1 \<noteq> n2"
    then consider "n1 < n2" | "n2 < n1" by linarith
    then show False
    proof cases
      case 1
      then show False using in2[of n1] out1(2) ss by simp
    next
      case 2
      then show False using in1[of n2] out2(2) ss by simp
    qed
  qed
  with ss show ?thesis by simp
qed


lemma maximal_run_iff:
  "maximal_run b q ps \<longleftrightarrow>
     q \<noteq> 0 \<and> ps \<noteq> [] \<and> (\<forall>p\<in>set ps. owns b q p) \<and>
     (\<exists>d\<in>set directions. ps = segment (hd ps) d (length ps)
         \<and> \<not> owns b q (shift (hd ps) d (- 1))
         \<and> \<not> owns b q (shift (hd ps) d (int (length ps))))"
  by (simp add: maximal_run_def list_all_iff list_ex_iff)

lemma hd_segment: "0 < m \<Longrightarrow> hd (segment s d m) = s"
  by (simp add: segment_def hd_map upt_conv_Cons shift_zero)

lemma spec_runs_sound:
  assumes sp: "sp \<in> set (line_specs b)" and m: "(q, ps) \<in> set (spec_runs b sp)"
  shows "maximal_run b q ps \<and> 2 \<le> length ps"
proof -
  obtain s d n where spd: "sp = (s, d, n)" by (cases sp)
  have fl: "full_line b (s, d, n)" using specs_full[OF sp] spd by simp
  then have d: "d \<in> set directions"
    and inb: "\<And>t. t < n \<Longrightarrow> in_board b (shift s d (int t))"
    and out: "\<not> in_board b (shift s d (- 1))" "\<not> in_board b (shift s d (int n))"
    by (simp_all add: full_line_def)
  from m have "(q, ps) \<in> set (line_runs (line b s d n))" by (simp add: spec_runs_def spd)
  then have q: "q \<noteq> 0" and "\<exists>i m. 2 \<le> m \<and> i + m \<le> n \<and> ps = segment (shift s d (int i)) d m
        \<and> (\<forall>t. i \<le> t \<and> t < i + m \<longrightarrow> cell_at b (shift s d (int t)) = q)
        \<and> (0 < i \<longrightarrow> cell_at b (shift s d (int i - 1)) \<noteq> q)
        \<and> (i + m < n \<longrightarrow> cell_at b (shift s d (int (i + m))) \<noteq> q)"
    unfolding line_runs_iff by simp_all
  then obtain i m where hh: "2 \<le> m \<and> i + m \<le> n \<and> ps = segment (shift s d (int i)) d m
        \<and> (\<forall>t. i \<le> t \<and> t < i + m \<longrightarrow> cell_at b (shift s d (int t)) = q)
        \<and> (0 < i \<longrightarrow> cell_at b (shift s d (int i - 1)) \<noteq> q)
        \<and> (i + m < n \<longrightarrow> cell_at b (shift s d (int (i + m))) \<noteq> q)"
    by (elim exE)
  then have h: "2 \<le> m" "i + m \<le> n" "ps = segment (shift s d (int i)) d m"
    "\<And>t. i \<le> t \<Longrightarrow> t < i + m \<Longrightarrow> cell_at b (shift s d (int t)) = q"
    "0 < i \<Longrightarrow> cell_at b (shift s d (int i - 1)) \<noteq> q"
    "i + m < n \<Longrightarrow> cell_at b (shift s d (int (i + m))) \<noteq> q" by simp_all
  have len: "length ps = m" by (simp add: h(3) segment_length)
  have hd: "hd ps = shift s d (int i)" using h(1) by (simp add: h(3) hd_segment)
  have ne: "ps \<noteq> []" using len h(1) by auto
  have own: "\<forall>p\<in>set ps. owns b q p"
  proof
    fix p assume "p \<in> set ps"
    then obtain t where t: "t < m" "p = shift s d (int (i + t))"
      unfolding h(3) segment_def by (auto simp: shift_shift)
    then have "i + t < n" using h(2) by simp
    then show "owns b q p" using inb[of "i + t"] h(4)[of "i + t"] t by (simp add: owns_def)
  qed
  have before: "\<not> owns b q (shift (hd ps) d (- 1))"
  proof (cases "i = 0")
    case True
    then show ?thesis using out(1) by (simp add: hd owns_def shift_zero)
  next
    case False
    then have "cell_at b (shift s d (int i - 1)) \<noteq> q" using h(5) by simp
    moreover have "shift (hd ps) d (- 1) = shift s d (int i - 1)"
      by (simp add: hd shift_shift)
    ultimately show ?thesis by (simp add: owns_def)
  qed
  have after: "\<not> owns b q (shift (hd ps) d (int (length ps)))"
  proof (cases "i + m = n")
    case True
    have "shift (hd ps) d (int (length ps)) = shift s d (int (i + m))"
      by (simp add: hd len shift_shift)
    then show ?thesis using out(2) True by (simp add: owns_def)
  next
    case False
    then have "cell_at b (shift s d (int (i + m))) \<noteq> q" using h(2,6) by simp
    moreover have "shift (hd ps) d (int (length ps)) = shift s d (int (i + m))"
      by (simp add: hd len shift_shift)
    ultimately show ?thesis by (simp add: owns_def)
  qed
  have "ps = segment (hd ps) d (length ps)" unfolding hd len by (rule h(3))
  with d before after have "\<exists>d\<in>set directions. ps = segment (hd ps) d (length ps)
         \<and> \<not> owns b q (shift (hd ps) d (- 1))
         \<and> \<not> owns b q (shift (hd ps) d (int (length ps)))" by blast
  then show ?thesis using q ne own h(1) len unfolding maximal_run_iff by simp
qed


lemma spec_runs_complete:
  assumes mr: "maximal_run b q ps" and l2: "2 \<le> length ps"
  shows "\<exists>sp\<in>set (line_specs b). (q, ps) \<in> set (spec_runs b sp)"
proof -
  define p0 where "p0 = hd ps"
  define m where "m = length ps"
  from mr have q: "q \<noteq> 0" and own: "\<forall>p\<in>set ps. owns b q p"
    and "\<exists>d\<in>set directions. ps = segment p0 d m
         \<and> \<not> owns b q (shift p0 d (- 1)) \<and> \<not> owns b q (shift p0 d (int m))"
    unfolding maximal_run_iff p0_def m_def by simp_all
  then obtain d where d: "d \<in> set directions" and seg: "ps = segment p0 d m"
    and nb: "\<not> owns b q (shift p0 d (- 1))" and na: "\<not> owns b q (shift p0 d (int m))"
    by blast
  have m2: "2 \<le> m" using l2 by (simp add: m_def)
  have ow: "owns b q (shift p0 d (int t))" if "t < m" for t
  proof -
    have "ps ! t \<in> set ps" using that by (simp add: m_def)
    moreover have "ps ! t = shift p0 d (int t)" using that by (subst seg) (simp add: segment_nth)
    ultimately show ?thesis using own by simp
  qed
  have "in_board b (shift p0 d (int 0))" using ow[of 0] m2 by (simp add: owns_def)
  then have i0: "in_board b p0" by (simp add: shift_zero)
  have i1: "in_board b (shift p0 d 1)" using ow[of 1] m2 by (simp add: owns_def)
  from coverage[OF d i0 i1] obtain s n t0 where
    sp: "(s, d, n) \<in> set (line_specs b)" and t0: "t0 < n" and p0: "p0 = shift s d (int t0)"
    by blast
  have "full_line b (s, d, n)" using specs_full[OF sp] .
  then have inb: "\<And>t. t < n \<Longrightarrow> in_board b (shift s d (int t))"
    and out: "\<not> in_board b (shift s d (int n))"
    by (simp_all add: full_line_def)
  have sh: "shift p0 d x = shift s d (int t0 + x)" for x
    by (simp add: p0 shift_shift)
  have le: "t0 + m \<le> n"
  proof (rule ccontr)
    assume "\<not> t0 + m \<le> n"
    then have "n - t0 < m" using t0 by linarith
    then have "in_board b (shift p0 d (int (n - t0)))" using ow by (simp add: owns_def)
    moreover have "int t0 + int (n - t0) = int n" using t0 by linarith
    ultimately show False using out by (simp add: sh)
  qed
  have cells: "\<forall>t. t0 \<le> t \<and> t < t0 + m \<longrightarrow> cell_at b (shift s d (int t)) = q"
  proof (intro allI impI)
    fix t assume t: "t0 \<le> t \<and> t < t0 + m"
    then have "t - t0 < m" by linarith
    then have "owns b q (shift p0 d (int (t - t0)))" by (rule ow)
    moreover have "int t0 + int (t - t0) = int t" using t by linarith
    ultimately show "cell_at b (shift s d (int t)) = q" by (simp add: sh owns_def)
  qed
  have before: "0 < t0 \<longrightarrow> cell_at b (shift s d (int t0 - 1)) \<noteq> q"
  proof
    assume pos: "0 < t0"
    then have "t0 - 1 < n" using t0 by linarith
    then have "in_board b (shift s d (int (t0 - 1)))" by (rule inb)
    moreover have "int (t0 - 1) = int t0 - 1" using pos by linarith
    moreover have "shift p0 d (- 1) = shift s d (int t0 - 1)" by (simp add: sh)
    ultimately show "cell_at b (shift s d (int t0 - 1)) \<noteq> q" using nb by (simp add: owns_def)
  qed
  have after: "t0 + m < n \<longrightarrow> cell_at b (shift s d (int (t0 + m))) \<noteq> q"
  proof
    assume "t0 + m < n"
    then have "in_board b (shift s d (int (t0 + m)))" by (rule inb)
    moreover have "shift p0 d (int m) = shift s d (int (t0 + m))" by (simp add: sh)
    ultimately show "cell_at b (shift s d (int (t0 + m))) \<noteq> q" using na by (simp add: owns_def)
  qed
  have "2 \<le> m \<and> t0 + m \<le> n \<and> ps = segment (shift s d (int t0)) d m
        \<and> (\<forall>t. t0 \<le> t \<and> t < t0 + m \<longrightarrow> cell_at b (shift s d (int t)) = q)
        \<and> (0 < t0 \<longrightarrow> cell_at b (shift s d (int t0 - 1)) \<noteq> q)
        \<and> (t0 + m < n \<longrightarrow> cell_at b (shift s d (int (t0 + m))) \<noteq> q)"
    using m2 le seg cells before after unfolding p0 by (intro conjI)
  then have "\<exists>i m. 2 \<le> m \<and> i + m \<le> n \<and> ps = segment (shift s d (int i)) d m
        \<and> (\<forall>t. i \<le> t \<and> t < i + m \<longrightarrow> cell_at b (shift s d (int t)) = q)
        \<and> (0 < i \<longrightarrow> cell_at b (shift s d (int i - 1)) \<noteq> q)
        \<and> (i + m < n \<longrightarrow> cell_at b (shift s d (int (i + m))) \<noteq> q)"
    by (intro exI)
  then have "(q, ps) \<in> set (line_runs (line b s d n))"
    unfolding line_runs_iff using q by (rule conjI[rotated])
  then have "(q, ps) \<in> set (spec_runs b (s, d, n))" by (simp add: spec_runs_def)
  with sp show ?thesis by blast
qed


lemma distinct_concat_map:
  assumes "distinct xs" and "\<forall>x\<in>set xs. distinct (f x)"
    and "\<forall>x\<in>set xs. \<forall>y\<in>set xs. x \<noteq> y \<longrightarrow> set (f x) \<inter> set (f y) = {}"
  shows "distinct (concat (map f xs))"
  using assms
proof (induction xs)
  case Nil
  then show ?case by simp
next
  case (Cons x xs)
  have "set (f x) \<inter> set (f y) = {}" if "y \<in> set xs" for y
    using Cons.prems(1,3) that by auto
  then have "set (f x) \<inter> set (concat (map f xs)) = {}" by auto
  moreover have "distinct (concat (map f xs))" using Cons by simp
  ultimately show ?case using Cons.prems(2) by simp
qed

lemma distinct_appendI:
  "distinct xs \<Longrightarrow> distinct ys \<Longrightarrow> set xs \<inter> set ys = {} \<Longrightarrow> distinct (xs @ ys)"
  by simp

lemma distinct_line_specs: "distinct (line_specs b)"
proof -
  let ?R = "length b" and ?C = "length (hd b)"
  let ?f1 = "\<lambda>i. ((int i, 0::int), (0::int, 1::int), ?C)"
  let ?f2 = "\<lambda>j. ((0::int, int j), (1::int, 0::int), ?R)"
  let ?f3 = "\<lambda>sc. ((0::int, int sc), (1::int, 1::int), min ?R (?C - sc))"
  let ?f4 = "\<lambda>sr. ((int sr, 0::int), (1::int, 1::int), min ?C (?R - sr))"
  let ?f5 = "\<lambda>sc. ((int (?R - 1), int sc), (- 1::int, 1::int), min ?R (?C - sc))"
  let ?f6 = "\<lambda>sr. ((int sr, 0::int), (- 1::int, 1::int), min ?C (Suc sr))"
  have d1: "distinct (map ?f1 [0..<?R])" by (simp add: distinct_map inj_on_def)
  have d2: "distinct (map ?f2 [0..<?C])" by (simp add: distinct_map inj_on_def)
  have d3: "distinct (map ?f3 [0..<?C - 1])" by (simp add: distinct_map inj_on_def)
  have d4: "distinct (map ?f4 [1..<?R - 1])" by (simp add: distinct_map inj_on_def)
  have d5: "distinct (map ?f5 [0..<?C - 1])" by (simp add: distinct_map inj_on_def)
  have d6: "distinct (map ?f6 [1..<?R - 1])" by (simp add: distinct_map inj_on_def)
  have x34: "?f3 sc \<noteq> ?f4 sr" if "1 \<le> sr" for sc sr using that by simp
  have x56: "?f5 sc \<noteq> ?f6 sr" if "sr < ?R - 1" for sc sr
  proof -
    have "int (?R - 1) \<noteq> int sr" using that by linarith
    then show ?thesis by simp
  qed
  have i56: "set (map ?f5 [0..<?C - 1]) \<inter> set (map ?f6 [1..<?R - 1]) = {}"
    using x56 by fastforce
  have i34: "set (map ?f3 [0..<?C - 1]) \<inter> set (map ?f4 [1..<?R - 1]) = {}"
    using x34 by fastforce
  have d56: "distinct (map ?f5 [0..<?C - 1] @ map ?f6 [1..<?R - 1])"
    using d5 d6 i56 by (rule distinct_appendI)
  have d34: "distinct (map ?f3 [0..<?C - 1] @ map ?f4 [1..<?R - 1])"
    using d3 d4 i34 by (rule distinct_appendI)
  have dir34: "\<forall>x\<in>set (map ?f3 [0..<?C - 1] @ map ?f4 [1..<?R - 1]). fst (snd x) = (1, 1)"
    by auto
  have dir56: "\<forall>x\<in>set (map ?f5 [0..<?C - 1] @ map ?f6 [1..<?R - 1]). fst (snd x) = (- 1, 1)"
    by auto
  have dir1: "\<forall>x\<in>set (map ?f1 [0..<?R]). fst (snd x) = (0, 1)" by auto
  have dir2: "\<forall>x\<in>set (map ?f2 [0..<?C]). fst (snd x) = (1, 0)" by auto
  have disj: "set xs \<inter> set ys = {}"
    if "\<forall>x\<in>set xs. fst (snd x) = a" "\<forall>x\<in>set ys. fst (snd x) = c" "a \<noteq> c"
    for xs ys :: "(position \<times> position \<times> nat) list" and a c
    using that by fastforce
  have ne: "((1::int), (1::int)) \<noteq> (- 1, 1)" by simp
  have d3456: "distinct ((map ?f3 [0..<?C - 1] @ map ?f4 [1..<?R - 1])
                       @ (map ?f5 [0..<?C - 1] @ map ?f6 [1..<?R - 1]))"
    using d34 d56 disj[OF dir34 dir56 ne] by (rule distinct_appendI)
  have dir3456: "\<forall>x\<in>set ((map ?f3 [0..<?C - 1] @ map ?f4 [1..<?R - 1])
                       @ (map ?f5 [0..<?C - 1] @ map ?f6 [1..<?R - 1])).
                   fst (snd x) = (1, 1) \<or> fst (snd x) = (- 1, 1)"
    using dir34 dir56 unfolding set_append by blast
  have i2: "set (map ?f2 [0..<?C]) \<inter> set ((map ?f3 [0..<?C - 1] @ map ?f4 [1..<?R - 1])
                       @ (map ?f5 [0..<?C - 1] @ map ?f6 [1..<?R - 1])) = {}"
    using dir2 dir3456 by fastforce
  have d23456: "distinct (map ?f2 [0..<?C] @ ((map ?f3 [0..<?C - 1] @ map ?f4 [1..<?R - 1])
                       @ (map ?f5 [0..<?C - 1] @ map ?f6 [1..<?R - 1])))"
    using d2 d3456 i2 by (rule distinct_appendI)
  have dir23456: "\<forall>x\<in>set (map ?f2 [0..<?C] @ ((map ?f3 [0..<?C - 1] @ map ?f4 [1..<?R - 1])
                       @ (map ?f5 [0..<?C - 1] @ map ?f6 [1..<?R - 1]))).
                   fst (snd x) \<noteq> (0, 1)"
    using dir2 dir3456 unfolding set_append[of "map ?f2 [0..<?C]"] by fastforce
  have i1: "set (map ?f1 [0..<?R]) \<inter> set (map ?f2 [0..<?C] @ ((map ?f3 [0..<?C - 1] @ map ?f4 [1..<?R - 1])
                       @ (map ?f5 [0..<?C - 1] @ map ?f6 [1..<?R - 1]))) = {}"
    using dir1 dir23456 by fastforce
  have "distinct (map ?f1 [0..<?R] @ (map ?f2 [0..<?C] @ ((map ?f3 [0..<?C - 1] @ map ?f4 [1..<?R - 1])
                       @ (map ?f5 [0..<?C - 1] @ map ?f6 [1..<?R - 1]))))"
    using d1 d23456 i1 by (rule distinct_appendI)
  then show ?thesis
    unfolding line_specs_def Let_def by (simp only: append_assoc)
qed

lemma distinct_segment:
  assumes "d \<in> set directions"
  shows "distinct (segment s d n)"
  using assms unfolding segment_def distinct_map
  by (auto simp: inj_on_def shift_def directions_def)

lemma line_positions: "map fst (line b s d n) = segment s d n"
  by (simp add: line_def segment_def comp_def)

lemma distinct_line_runs:
  assumes "d \<in> set directions"
  shows "distinct (line_runs (line b s d n))"
proof -
  let ?rs = "line_runs (line b s d n)"
  have "subseq (concat (map snd ?rs)) (segment s d n)"
    using runs_subseq[of 0 "[]" "line b s d n"] by (simp add: line_runs_runs line_positions)
  then have "concat (map snd ?rs) \<in> set (subseqs (segment s d n))" by simp
  then have dc: "distinct (concat (map snd ?rs))"
    using distinct_segment[OF assms] by (rule subseqs_distinctD)
  have "[] \<notin> set (map snd ?rs)"
  proof
    assume "[] \<in> set (map snd ?rs)"
    then obtain q where "(q, []) \<in> set ?rs" by auto
    then show False unfolding line_runs_iff by (auto simp: segment_def)
  qed
  then have "removeAll [] (map snd ?rs) = map snd ?rs" by simp
  with dc have "distinct (map snd ?rs)" using distinct_concat_iff[of "map snd ?rs"] by simp
  then show ?thesis by (simp add: distinct_map)
qed


lemma run_shape:
  assumes "(q, ps) \<in> set (spec_runs b (s, d, n))"
  obtains i m where "2 \<le> m" "i + m \<le> n" "ps = segment (shift s d (int i)) d m"
proof -
  from assms have "(q, ps) \<in> set (line_runs (line b s d n))" by (simp add: spec_runs_def)
  then have "\<exists>i m. 2 \<le> m \<and> i + m \<le> n \<and> ps = segment (shift s d (int i)) d m
        \<and> (\<forall>t. i \<le> t \<and> t < i + m \<longrightarrow> cell_at b (shift s d (int t)) = q)
        \<and> (0 < i \<longrightarrow> cell_at b (shift s d (int i - 1)) \<noteq> q)
        \<and> (i + m < n \<longrightarrow> cell_at b (shift s d (int (i + m))) \<noteq> q)"
    unfolding line_runs_iff by simp
  then obtain i m where "2 \<le> m \<and> i + m \<le> n \<and> ps = segment (shift s d (int i)) d m
        \<and> (\<forall>t. i \<le> t \<and> t < i + m \<longrightarrow> cell_at b (shift s d (int t)) = q)
        \<and> (0 < i \<longrightarrow> cell_at b (shift s d (int i - 1)) \<noteq> q)
        \<and> (i + m < n \<longrightarrow> cell_at b (shift s d (int (i + m))) \<noteq> q)"
    by (elim exE)
  then have "2 \<le> m" "i + m \<le> n" "ps = segment (shift s d (int i)) d m" by simp_all
  then show ?thesis by (rule that)
qed

lemma runs_disjoint:
  assumes s1: "sp1 \<in> set (line_specs b)" and s2: "sp2 \<in> set (line_specs b)"
    and m1: "(q, ps) \<in> set (spec_runs b sp1)" and m2: "(q, ps) \<in> set (spec_runs b sp2)"
  shows "sp1 = sp2"
proof -
  obtain a1 d1 n1 where e1: "sp1 = (a1, d1, n1)" by (cases sp1)
  obtain a2 d2 n2 where e2: "sp2 = (a2, d2, n2)" by (cases sp2)
  from m1 obtain i1 k1 where h1: "2 \<le> k1" "i1 + k1 \<le> n1"
    "ps = segment (shift a1 d1 (int i1)) d1 k1" unfolding e1 by (rule run_shape)
  from m2 obtain i2 k2 where h2: "2 \<le> k2" "i2 + k2 \<le> n2"
    "ps = segment (shift a2 d2 (int i2)) d2 k2" unfolding e2 by (rule run_shape)
  have "ps ! 0 = shift (shift a1 d1 (int i1)) d1 (int 0)"
    using h1(1) by (subst h1(3)) (simp add: segment_nth)
  moreover have "ps ! 0 = shift (shift a2 d2 (int i2)) d2 (int 0)"
    using h2(1) by (subst h2(3)) (simp add: segment_nth)
  ultimately have p0: "shift a1 d1 (int i1) = shift a2 d2 (int i2)" by (simp add: shift_zero)
  have "ps ! 1 = shift (shift a1 d1 (int i1)) d1 (int 1)"
    using h1(1) by (subst h1(3)) (simp add: segment_nth)
  moreover have "ps ! 1 = shift (shift a2 d2 (int i2)) d2 (int 1)"
    using h2(1) by (subst h2(3)) (simp add: segment_nth)
  ultimately have "shift (shift a2 d2 (int i2)) d1 1 = shift (shift a2 d2 (int i2)) d2 1"
    using p0 by simp
  then have dd: "d1 = d2" by (cases d1; cases d2) (simp add: shift_def)
  have f1: "full_line b (a1, d2, n1)" using specs_full[OF s1] e1 dd by simp
  have f2: "full_line b (a2, d2, n2)" using specs_full[OF s2] e2 by simp
  have "i1 < n1" "i2 < n2" using h1(1,2) h2(1,2) by linarith+
  from unique_line[OF f1 f2 this] p0 dd have "a1 = a2 \<and> n1 = n2" by simp
  then show ?thesis using e1 e2 dd by simp
qed

lemma distinct_all_runs: "distinct (concat (map (spec_runs b) (line_specs b)))"
proof (rule distinct_concat_map)
  show "distinct (line_specs b)" by (rule distinct_line_specs)
next
  show "\<forall>sp\<in>set (line_specs b). distinct (spec_runs b sp)"
  proof
    fix sp assume sp: "sp \<in> set (line_specs b)"
    obtain s d n where e: "sp = (s, d, n)" by (cases sp)
    have "d \<in> set directions" using specs_full[OF sp] e by (simp add: full_line_def)
    then show "distinct (spec_runs b sp)"
      unfolding e spec_runs_def prod.case by (rule distinct_line_runs)
  qed
next
  show "\<forall>x\<in>set (line_specs b). \<forall>y\<in>set (line_specs b).
          x \<noteq> y \<longrightarrow> set (spec_runs b x) \<inter> set (spec_runs b y) = {}"
  proof (intro ballI impI)
    fix x y assume x: "x \<in> set (line_specs b)" and y: "y \<in> set (line_specs b)" and ne: "x \<noteq> y"
    show "set (spec_runs b x) \<inter> set (spec_runs b y) = {}"
    proof (rule ccontr)
      assume "set (spec_runs b x) \<inter> set (spec_runs b y) \<noteq> {}"
      then obtain r where "r \<in> set (spec_runs b x)" "r \<in> set (spec_runs b y)"
        unfolding ex_in_conv[symmetric] Int_iff by (elim exE conjE)
      then have "x = y" using runs_disjoint[OF x y, of "fst r" "snd r"] by simp
      with ne show False by simp
    qed
  qed
qed

lemma all_runs_mem:
  "r \<in> set (concat (map (spec_runs b) (line_specs b))) \<longleftrightarrow>
     (\<exists>sp\<in>set (line_specs b). r \<in> set (spec_runs b sp))"
  by (simp only: set_concat set_map UN_iff bex_simps image_iff)

lemma all_runs_iff:
  "(q, ps) \<in> set (concat (map (spec_runs b) (line_specs b))) \<longleftrightarrow>
     maximal_run b q ps \<and> 2 \<le> length ps"
proof
  assume "(q, ps) \<in> set (concat (map (spec_runs b) (line_specs b)))"
  then obtain sp where "sp \<in> set (line_specs b)" "(q, ps) \<in> set (spec_runs b sp)"
    unfolding all_runs_mem by (elim bexE)
  then show "maximal_run b q ps \<and> 2 \<le> length ps" by (rule spec_runs_sound)
next
  assume a: "maximal_run b q ps \<and> 2 \<le> length ps"
  have "\<exists>sp\<in>set (line_specs b). (q, ps) \<in> set (spec_runs b sp)"
    by (rule spec_runs_complete[OF conjunct1[OF a] conjunct2[OF a]])
  then show "(q, ps) \<in> set (concat (map (spec_runs b) (line_specs b)))"
    unfolding all_runs_mem .
qed

text \<open>
  Claim C2. On a rectangular board with at least one row, \<open>pieces_in_a_row\<close> raises nothing
  and yields each maximal run of two or more cells exactly once: the list of what it yields
  has no duplicate, and a pair (player, positions) is in it exactly when the positions are
  a maximal run of that player of length at least 2. So every pair yielded has at least two
  positions, in order from the first cell of the run along one of the four directions, every
  one of them on the board and holding the player's id, which is not 0.
\<close>

theorem pieces_in_a_row_maximal_runs:
  assumes "rect b" and "b \<noteq> []"
  shows "\<exists>ys. pieces_in_a_row b = (ys, None) \<and> distinct ys
     \<and> (\<forall>q ps. (q, ps) \<in> set ys \<longleftrightarrow> maximal_run b q ps \<and> 2 \<le> length ps)
     \<and> (\<forall>q ps. (q, ps) \<in> set ys \<longrightarrow>
           2 \<le> length ps \<and> q \<noteq> 0 \<and> (\<forall>p\<in>set ps. in_board b p \<and> cell_at b p = q)
           \<and> (\<exists>d\<in>set directions. ps = segment (hd ps) d (length ps)))"
proof -
  let ?ys = "concat (map (spec_runs b) (line_specs b))"
  have 1: "pieces_in_a_row b = (?ys, None)" by (rule pieces_in_a_row_rect[OF assms])
  have 2: "distinct ?ys" by (rule distinct_all_runs)
  have 3: "\<forall>q ps. (q, ps) \<in> set ?ys \<longleftrightarrow> maximal_run b q ps \<and> 2 \<le> length ps"
    by (intro allI) (rule all_runs_iff)
  have 4: "\<forall>q ps. (q, ps) \<in> set ?ys \<longrightarrow>
           2 \<le> length ps \<and> q \<noteq> 0 \<and> (\<forall>p\<in>set ps. in_board b p \<and> cell_at b p = q)
           \<and> (\<exists>d\<in>set directions. ps = segment (hd ps) d (length ps))"
  proof (intro allI impI)
    fix q ps assume "(q, ps) \<in> set ?ys"
    then have mr: "maximal_run b q ps" and l: "2 \<le> length ps"
      unfolding all_runs_iff by simp_all
    from mr have "q \<noteq> 0" and o: "\<forall>p\<in>set ps. owns b q p"
      and "\<exists>d\<in>set directions. ps = segment (hd ps) d (length ps)
         \<and> \<not> owns b q (shift (hd ps) d (- 1))
         \<and> \<not> owns b q (shift (hd ps) d (int (length ps)))"
      unfolding maximal_run_iff by simp_all
    moreover from this(3) have "\<exists>d\<in>set directions. ps = segment (hd ps) d (length ps)"
      by (elim bexE conjE) (rule bexI)
    moreover from o have "\<forall>p\<in>set ps. in_board b p \<and> cell_at b p = q"
      unfolding owns_def .
    ultimately show "2 \<le> length ps \<and> q \<noteq> 0 \<and> (\<forall>p\<in>set ps. in_board b p \<and> cell_at b p = q)
           \<and> (\<exists>d\<in>set directions. ps = segment (hd ps) d (length ps))"
      using l by (intro conjI)
  qed
  from 1 2 3 4 have "pieces_in_a_row b = (?ys, None) \<and> distinct ?ys
     \<and> (\<forall>q ps. (q, ps) \<in> set ?ys \<longleftrightarrow> maximal_run b q ps \<and> 2 \<le> length ps)
     \<and> (\<forall>q ps. (q, ps) \<in> set ?ys \<longrightarrow>
           2 \<le> length ps \<and> q \<noteq> 0 \<and> (\<forall>p\<in>set ps. in_board b p \<and> cell_at b p = q)
           \<and> (\<exists>d\<in>set directions. ps = segment (hd ps) d (length ps)))"
    by (intro conjI)
  then show ?thesis by (rule exI)
qed

theorem pieces_in_a_row_maximal_runs_witness:
  "rect [[0, 1], [1, 1]] \<and> [[0, 1], [1, 1]] \<noteq> ([] :: board)
   \<and> pieces_in_a_row [[0, 1], [1, 1]] =
        ([(1, [(1, 0), (1, 1)]), (1, [(0, 1), (1, 1)]), (1, [(1, 0), (0, 1)])], None)
   \<and> maximal_run [[0, 1], [1, 1]] 1 [(1, 0), (0, 1)]"
proof -
  have r: "rect [[0, 1], [1, 1]]" by (simp add: rect_def)
  have n: "[[0, 1], [1, 1]] \<noteq> ([] :: board)" by simp
  have p: "pieces_in_a_row [[0, 1], [1, 1]] =
        ([(1, [(1, 0), (1, 1)]), (1, [(0, 1), (1, 1)]), (1, [(1, 0), (0, 1)])], None)"
    by code_simp
  from pieces_in_a_row_maximal_runs[OF r n] obtain ys where
    e: "pieces_in_a_row [[0, 1], [1, 1]] = (ys, None)" and
    m: "\<forall>q ps. (q, ps) \<in> set ys \<longleftrightarrow> maximal_run [[0, 1], [1, 1]] q ps \<and> 2 \<le> length ps"
    by (elim exE conjE)
  from e have "ys = [(1, [(1, 0), (1, 1)]), (1, [(0, 1), (1, 1)]), (1, [(1, 0), (0, 1)])]"
    unfolding p by simp
  then have "(1, [(1, 0), (0, 1)]) \<in> set ys" by simp
  then have "maximal_run [[0, 1], [1, 1]] 1 [(1, 0), (0, 1)]"
    using m[rule_format, of 1 "[(1, 0), (0, 1)]"] by simp
  with r n p show ?thesis by (intro conjI)
qed


section \<open>The outcome evaluator\<close>


lemma runs_of_rect: "rect b \<Longrightarrow> b \<noteq> [] \<Longrightarrow> pieces_in_a_row b = (all_runs b, None)"
  unfolding all_runs_def by (rule pieces_in_a_row_rect)

lemma all_runs_maximal:
  "(q, ps) \<in> set (all_runs b) \<longleftrightarrow> maximal_run b q ps \<and> 2 \<le> length ps"
  unfolding all_runs_def by (rule all_runs_iff)

lemma getitem_zero: "b \<noteq> [] \<Longrightarrow> py_getitem b 0 = Inr (hd b)"
  by (cases b) (simp_all add: py_getitem_def)

lemma end_of_game_rect:
  assumes "rect b" and "b \<noteq> []"
  shows "end_of_game k b =
     Inr (case first_long_run k (all_runs b) of
            Some (player, cells) \<Rightarrow> player
          | None \<Rightarrow> if 0 \<in> set (hd b) then GAME_NOT_OVER else DRAW)"
  unfolding end_of_game_def runs_of_rect[OF assms] getitem_zero[OF assms(2)] first_long_run_def
  by (simp add: bind_err_def split: option.splits)

lemma first_long_run_Some:
  assumes "first_long_run k ys = Some (q, ps)"
  shows "(q, ps) \<in> set ys \<and> k \<le> int (length ps)"
proof -
  from assms obtain i where "i < length ys" "(q, ps) = ys ! i"
    "case ys ! i of (player, cells) \<Rightarrow> k \<le> int (length cells)"
    unfolding first_long_run_def find_Some_iff by (elim exE conjE)
  then show ?thesis using nth_mem[of i ys] by (simp add: case_prod_unfold flip: \<open>(q, ps) = ys ! i\<close>)
qed

lemma first_long_run_None:
  "first_long_run k ys = None \<longleftrightarrow> (\<forall>q ps. (q, ps) \<in> set ys \<longrightarrow> \<not> k \<le> int (length ps))"
  unfolding first_long_run_def find_None_iff by simp

lemma owned_cell_in_row:
  assumes "rect b" and "owns b q pos"
  shows "\<exists>row\<in>set b. q \<in> set row"
proof -
  from assms(2) have i: "nat (fst pos) < length b" and j: "nat (snd pos) < length (hd b)"
    and c: "b ! nat (fst pos) ! nat (snd pos) = q"
    unfolding owns_def in_board_def cell_at_def by (simp_all add: nat_less_iff)
  have "nat (snd pos) < length (b ! nat (fst pos))" using rect_nth[OF assms(1) i] j by simp
  then have "q \<in> set (b ! nat (fst pos))" using c nth_mem by blast
  moreover have "b ! nat (fst pos) \<in> set b" using i by simp
  ultimately show ?thesis by blast
qed

lemma run_owner_nonneg:
  assumes "rect b" and "cells_nonneg b" and "maximal_run b q ps"
  shows "0 < q"
proof -
  from assms(3) have q: "q \<noteq> 0" and ne: "ps \<noteq> []" and o: "\<forall>p\<in>set ps. owns b q p"
    unfolding maximal_run_iff by simp_all
  from ne o have "owns b q (hd ps)" by simp
  from owned_cell_in_row[OF assms(1) this] obtain row where "row \<in> set b" "q \<in> set row"
    by (elim bexE)
  then have "0 \<le> q" using assms(2) unfolding cells_nonneg_def list_all_iff by blast
  with q show ?thesis by simp
qed



lemma long_run_exists_iff:
  "long_run_exists k b \<longleftrightarrow> first_long_run k (all_runs b) \<noteq> None"
proof -
  have "first_long_run k (all_runs b) = None \<longleftrightarrow>
        (\<forall>q ps. maximal_run b q ps \<and> 2 \<le> length ps \<longrightarrow> \<not> k \<le> int (length ps))"
    unfolding first_long_run_None all_runs_maximal ..
  then have "first_long_run k (all_runs b) \<noteq> None \<longleftrightarrow>
        \<not> (\<forall>q ps. maximal_run b q ps \<and> 2 \<le> length ps \<longrightarrow> \<not> k \<le> int (length ps))"
    by (rule arg_cong[of _ _ Not])
  also have "\<dots> \<longleftrightarrow> (\<exists>q ps. maximal_run b q ps \<and> 2 \<le> length ps \<and> k \<le> int (length ps))"
    unfolding not_all not_imp not_not conj_assoc ..
  finally show ?thesis unfolding long_run_exists_def ..
qed

text \<open>
  Claim C1. On a rectangular board with at least one row, for every \<open>k\<close>, \<open>end_of_game\<close>
  returns the owner of the first run of at least \<open>k\<close> cells in the order \<open>pieces_in_a_row\<close>
  yields the runs, when there is one; otherwise GAME_NOT_OVER (0) when the top row has an
  empty cell and DRAW (-1) when it has none. A result other than 0 and -1 is the owner of a
  maximal run of at least \<open>k\<close> cells; a result 0 means the top row has an empty cell and no
  such run exists; and on a board whose cells are 0 or positive ids a winner is positive, so
  the three outcomes exclude one another and a result -1 means the top row is full and no
  such run exists.
\<close>

theorem end_of_game_outcome:
  assumes "rect b" and "b \<noteq> []"
  shows "\<exists>ys r. pieces_in_a_row b = (ys, None) \<and> end_of_game k b = Inr r
    \<and> r = (case first_long_run k ys of
             Some (player, cells) \<Rightarrow> player
           | None \<Rightarrow> if 0 \<in> set (hd b) then GAME_NOT_OVER else DRAW)
    \<and> (\<forall>player cells. first_long_run k ys = Some (player, cells) \<longrightarrow>
          r = player \<and> r \<noteq> GAME_NOT_OVER \<and> maximal_run b r cells
          \<and> 2 \<le> length cells \<and> k \<le> int (length cells)
          \<and> (cells_nonneg b \<longrightarrow> 0 < r \<and> r \<noteq> DRAW))
    \<and> (first_long_run k ys = None \<longleftrightarrow> \<not> long_run_exists k b)
    \<and> (first_long_run k ys = None \<longrightarrow>
          (r = GAME_NOT_OVER \<and> 0 \<in> set (hd b)) \<or> (r = DRAW \<and> 0 \<notin> set (hd b)))
    \<and> (r \<noteq> GAME_NOT_OVER \<and> r \<noteq> DRAW \<longrightarrow>
          (\<exists>cells. maximal_run b r cells \<and> 2 \<le> length cells \<and> k \<le> int (length cells)))
    \<and> (r = GAME_NOT_OVER \<longrightarrow> 0 \<in> set (hd b) \<and> \<not> long_run_exists k b)
    \<and> (cells_nonneg b \<and> r = DRAW \<longrightarrow> 0 \<notin> set (hd b) \<and> \<not> long_run_exists k b)"
proof -
  let ?ys = "all_runs b"
  define r where "r = (case first_long_run k ?ys of
             Some (player, cells) \<Rightarrow> player
           | None \<Rightarrow> if 0 \<in> set (hd b) then GAME_NOT_OVER else DRAW)"
  have 1: "pieces_in_a_row b = (?ys, None)" by (rule runs_of_rect[OF assms])
  have 2: "end_of_game k b = Inr r" unfolding r_def by (rule end_of_game_rect[OF assms])
  have 3: "r = (case first_long_run k ?ys of
             Some (player, cells) \<Rightarrow> player
           | None \<Rightarrow> if 0 \<in> set (hd b) then GAME_NOT_OVER else DRAW)" by (rule r_def)
  have some: "r = player \<and> r \<noteq> GAME_NOT_OVER \<and> maximal_run b r cells
          \<and> 2 \<le> length cells \<and> k \<le> int (length cells)
          \<and> (cells_nonneg b \<longrightarrow> 0 < r \<and> r \<noteq> DRAW)"
    if f: "first_long_run k ?ys = Some (player, cells)" for player cells
  proof -
    have rp: "r = player" unfolding r_def f by simp
    from first_long_run_Some[OF f] have "(player, cells) \<in> set ?ys" "k \<le> int (length cells)"
      by simp_all
    then have m: "maximal_run b r cells" "2 \<le> length cells" "k \<le> int (length cells)"
      unfolding all_runs_maximal rp by simp_all
    from m(1) have "r \<noteq> 0" unfolding maximal_run_iff by simp
    moreover have "cells_nonneg b \<longrightarrow> 0 < r \<and> r \<noteq> DRAW"
      using run_owner_nonneg[OF assms(1) _ m(1)] by (auto simp: DRAW_def)
    ultimately show ?thesis using rp m by (simp add: GAME_NOT_OVER_def)
  qed
  have 4: "\<forall>player cells. first_long_run k ?ys = Some (player, cells) \<longrightarrow>
          r = player \<and> r \<noteq> GAME_NOT_OVER \<and> maximal_run b r cells
          \<and> 2 \<le> length cells \<and> k \<le> int (length cells)
          \<and> (cells_nonneg b \<longrightarrow> 0 < r \<and> r \<noteq> DRAW)"
    using some by (intro allI impI)
  have 5: "first_long_run k ?ys = None \<longleftrightarrow> \<not> long_run_exists k b"
    unfolding long_run_exists_iff not_not ..
  have none: "(r = GAME_NOT_OVER \<and> 0 \<in> set (hd b)) \<or> (r = DRAW \<and> 0 \<notin> set (hd b))"
    if "first_long_run k ?ys = None"
    unfolding r_def that by simp
  have 6: "first_long_run k ?ys = None \<longrightarrow>
          (r = GAME_NOT_OVER \<and> 0 \<in> set (hd b)) \<or> (r = DRAW \<and> 0 \<notin> set (hd b))"
    using none by (intro impI)
  have 7: "r \<noteq> GAME_NOT_OVER \<and> r \<noteq> DRAW \<longrightarrow>
          (\<exists>cells. maximal_run b r cells \<and> 2 \<le> length cells \<and> k \<le> int (length cells))"
  proof
    assume a: "r \<noteq> GAME_NOT_OVER \<and> r \<noteq> DRAW"
    then have "first_long_run k ?ys \<noteq> None" using none by blast
    then obtain player cells where f: "first_long_run k ?ys = Some (player, cells)"
      by (cases "first_long_run k ?ys") auto
    from some[OF f] have "maximal_run b r cells \<and> 2 \<le> length cells \<and> k \<le> int (length cells)"
      by blast
    then show "\<exists>cells. maximal_run b r cells \<and> 2 \<le> length cells \<and> k \<le> int (length cells)"
      by (rule exI)
  qed
  have 8: "r = GAME_NOT_OVER \<longrightarrow> 0 \<in> set (hd b) \<and> \<not> long_run_exists k b"
  proof
    assume a: "r = GAME_NOT_OVER"
    have n: "first_long_run k ?ys = None"
    proof (cases "first_long_run k ?ys")
      case None then show ?thesis .
    next
      case (Some x)
      then have "first_long_run k ?ys = Some (fst x, snd x)" by simp
      from some[OF this] a show ?thesis by blast
    qed
    from none[OF n] a have "0 \<in> set (hd b)" by (auto simp: GAME_NOT_OVER_def DRAW_def)
    then show "0 \<in> set (hd b) \<and> \<not> long_run_exists k b" using n 5 by simp
  qed
  have 9: "cells_nonneg b \<and> r = DRAW \<longrightarrow> 0 \<notin> set (hd b) \<and> \<not> long_run_exists k b"
  proof
    assume a: "cells_nonneg b \<and> r = DRAW"
    have n: "first_long_run k ?ys = None"
    proof (cases "first_long_run k ?ys")
      case None then show ?thesis .
    next
      case (Some x)
      then have "first_long_run k ?ys = Some (fst x, snd x)" by simp
      from some[OF this] a show ?thesis by blast
    qed
    from none[OF n] a have "0 \<notin> set (hd b)" by (auto simp: GAME_NOT_OVER_def DRAW_def)
    then show "0 \<notin> set (hd b) \<and> \<not> long_run_exists k b" using n 5 by simp
  qed
  from 1 2 3 4 5 6 7 8 9 have "pieces_in_a_row b = (?ys, None) \<and> end_of_game k b = Inr r
    \<and> r = (case first_long_run k ?ys of
             Some (player, cells) \<Rightarrow> player
           | None \<Rightarrow> if 0 \<in> set (hd b) then GAME_NOT_OVER else DRAW)
    \<and> (\<forall>player cells. first_long_run k ?ys = Some (player, cells) \<longrightarrow>
          r = player \<and> r \<noteq> GAME_NOT_OVER \<and> maximal_run b r cells
          \<and> 2 \<le> length cells \<and> k \<le> int (length cells)
          \<and> (cells_nonneg b \<longrightarrow> 0 < r \<and> r \<noteq> DRAW))
    \<and> (first_long_run k ?ys = None \<longleftrightarrow> \<not> long_run_exists k b)
    \<and> (first_long_run k ?ys = None \<longrightarrow>
          (r = GAME_NOT_OVER \<and> 0 \<in> set (hd b)) \<or> (r = DRAW \<and> 0 \<notin> set (hd b)))
    \<and> (r \<noteq> GAME_NOT_OVER \<and> r \<noteq> DRAW \<longrightarrow>
          (\<exists>cells. maximal_run b r cells \<and> 2 \<le> length cells \<and> k \<le> int (length cells)))
    \<and> (r = GAME_NOT_OVER \<longrightarrow> 0 \<in> set (hd b) \<and> \<not> long_run_exists k b)
    \<and> (cells_nonneg b \<and> r = DRAW \<longrightarrow> 0 \<notin> set (hd b) \<and> \<not> long_run_exists k b)"
    by (intro conjI)
  then show ?thesis by (intro exI)
qed

theorem end_of_game_outcome_witness:
  "rect [[1, 1, 1, 1]] \<and> [[1, 1, 1, 1]] \<noteq> ([] :: board)
   \<and> end_of_game 4 [[1, 1, 1, 1]] = Inr 1
   \<and> maximal_run [[1, 1, 1, 1]] 1 [(0, 0), (0, 1), (0, 2), (0, 3)]"
proof -
  have r: "rect [[1, 1, 1, 1]]" by (simp add: rect_def)
  have n: "[[1, 1, 1, 1]] \<noteq> ([] :: board)" by simp
  have p: "pieces_in_a_row [[1, 1, 1, 1]] = ([(1, [(0, 0), (0, 1), (0, 2), (0, 3)])], None)"
    by code_simp
  from end_of_game_outcome[OF r n, of 4] obtain ys res where
    y: "pieces_in_a_row [[1, 1, 1, 1]] = (ys, None)" and
    e: "end_of_game 4 [[1, 1, 1, 1]] = Inr res" and
    w: "\<forall>player cells. first_long_run 4 ys = Some (player, cells) \<longrightarrow>
          res = player \<and> res \<noteq> GAME_NOT_OVER \<and> maximal_run [[1, 1, 1, 1]] res cells
          \<and> 2 \<le> length cells \<and> 4 \<le> int (length cells)
          \<and> (cells_nonneg [[1, 1, 1, 1]] \<longrightarrow> 0 < res \<and> res \<noteq> DRAW)"
    by (elim exE conjE)
  from y have ys: "ys = [(1, [(0, 0), (0, 1), (0, 2), (0, 3)])]" unfolding p by simp
  have f: "first_long_run 4 ys = Some (1, [(0, 0), (0, 1), (0, 2), (0, 3)])"
    unfolding ys by (simp add: first_long_run_def)
  from w[rule_format, OF f] have "res = 1"
    and "maximal_run [[1, 1, 1, 1]] res [(0, 0), (0, 1), (0, 2), (0, 3)]" by blast+
  then show ?thesis using r n e by simp
qed


section \<open>Winning and blocking columns\<close>

lemma copy_and_drop_rect:
  assumes r: "rect b" and c: "1 \<le> column" "column \<le> int (length (hd b))"
  obtains nb where "copy_and_drop_piece b who column = Inr nb" and "rect nb"
    and "length nb = length b" and "length (hd nb) = length (hd b)"
    and "nb = b \<or> (\<exists>i < length b. b ! i ! nat (column - 1) = 0
                 \<and> (\<forall>i'. i < i' \<and> i' < length b \<longrightarrow> b ! i' ! nat (column - 1) \<noteq> 0)
                 \<and> nb = b[i := (b ! i)[nat (column - 1) := who]])"
proof -
  define j where "j = nat (column - 1)"
  have col: "column = int j + 1" and jl: "j < length (hd b)"
    using c unfolding j_def by linarith+
  have rows: "\<forall>row\<in>set b. j < length row" using r jl by (simp add: rect_set)
  show ?thesis
  proof (cases "\<exists>i < length b. b ! i ! j = 0")
    case True
    from drop_piece_found[OF rows True, of who] obtain i where
      i: "i < length b" "b ! i ! j = 0"
      "\<forall>i'. i < i' \<and> i' < length b \<longrightarrow> b ! i' ! j \<noteq> 0"
      "drop_piece b who (int j + 1) = (Inr True, b[i := (b ! i)[j := who]])"
      by (elim exE conjE)
    let ?nb = "b[i := (b ! i)[j := who]]"
    have 1: "copy_and_drop_piece b who column = Inr ?nb"
      by (simp add: copy_and_drop_piece_def i(4) col)
    have 2: "rect ?nb" by (rule rect_update[OF r i(1)])
    have 3: "length (hd ?nb) = length (hd b)"
    proof (cases "i = 0")
      case True
      then have "hd ?nb = (b ! 0)[j := who]" using i(1) by (simp add: hd_update_row)
      then show ?thesis using rect_nth[OF r i(1)] True by simp
    next
      case False
      then show ?thesis using i(1) by (simp add: hd_update_row)
    qed
    have 4: "\<exists>i < length b. b ! i ! j = 0
                 \<and> (\<forall>i'. i < i' \<and> i' < length b \<longrightarrow> b ! i' ! j \<noteq> 0)
                 \<and> ?nb = b[i := (b ! i)[j := who]]"
      using i(1,2,3) by (intro exI[of _ i] conjI) simp_all
    have 0: "length ?nb = length b" by simp
    have 5: "?nb = b \<or> (\<exists>i < length b. b ! i ! j = 0
                 \<and> (\<forall>i'. i < i' \<and> i' < length b \<longrightarrow> b ! i' ! j \<noteq> 0)
                 \<and> ?nb = b[i := (b ! i)[j := who]])"
      using 4 by (rule disjI2)
    show ?thesis using 1 2 0 3 5 unfolding j_def by (rule that)
  next
    case False
    have "\<forall>row\<in>set b. j < length row \<and> row ! j \<noteq> 0"
    proof
      fix row assume m: "row \<in> set b"
      then obtain i where "i < length b" "b ! i = row" unfolding in_set_conv_nth by (elim exE conjE)
      then have "row ! j \<noteq> 0" using False by blast
      then show "j < length row \<and> row ! j \<noteq> 0" using rows m by simp
    qed
    then have "drop_piece b who (int j + 1) = (Inr False, b)" by (rule drop_piece_full)
    then have "copy_and_drop_piece b who column = Inr b"
      by (simp add: copy_and_drop_piece_def col)
    then show ?thesis using r by (rule that) simp_all
  qed
qed


lemma end_of_game_returns:
  assumes "rect b" and "b \<noteq> []"
  shows "\<exists>r. end_of_game k b = Inr r"
  unfolding end_of_game_rect[OF assms] by simp

lemma wins_step:
  assumes r: "rect b" and ne: "b \<noteq> []" and c: "1 \<le> column" "column \<le> int (length (hd b))"
  shows "\<exists>nb st. copy_and_drop_piece b who column = Inr nb \<and> end_of_game k nb = Inr st
           \<and> (wins k b who column \<longleftrightarrow> st = who)"
proof -
  obtain nb where
    nb: "copy_and_drop_piece b who column = Inr nb" "rect nb" "length nb = length b"
    by (rule copy_and_drop_rect[OF r c, of who])
  have "nb \<noteq> []" using nb(3) ne by auto
  from end_of_game_returns[OF nb(2) this, of k] obtain st where st: "end_of_game k nb = Inr st"
    by (elim exE)
  have "wins k b who column \<longleftrightarrow> st = who" by (simp add: wins_def nb(1) st)
  with nb(1) st show ?thesis by blast
qed

lemma winning_column_find:
  assumes r: "rect b" and ne: "b \<noteq> []" and cols: "columns_in_range b columns"
  shows "winning_column k b who columns = Inr (find (wins k b who) columns)"
  using cols
proof (induction columns)
  case Nil
  then show ?case by simp
next
  case (Cons c cs)
  then have c: "1 \<le> c" "c \<le> int (length (hd b))" and cs: "columns_in_range b cs"
    by (simp_all add: columns_in_range_def)
  from wins_step[OF r ne c, of who k] obtain nb st where
    s: "copy_and_drop_piece b who c = Inr nb" "end_of_game k nb = Inr st"
    "wins k b who c \<longleftrightarrow> st = who" by (elim exE conjE)
  show ?case using Cons.IH[OF cs] s by simp
qed

lemma find_append_cases:
  "find P (xs @ ys) = (case find P xs of None \<Rightarrow> find P ys | Some x \<Rightarrow> Some x)"
  by (induction xs) simp_all

lemma find_map_Pair:
  "find (\<lambda>(q, c). P q c) (map (Pair x) ys) = map_option (Pair x) (find (P x) ys)"
  by (induction ys) simp_all

lemma block_loop_find:
  assumes r: "rect b" and ne: "b \<noteq> []" and cols: "columns_in_range b free"
  shows "block_loop k n b free p is =
     Inr (map_option snd (find (\<lambda>(q, c). wins k b q c)
                            (List.product (map (\<lambda>i. (p + i) mod n + 1) is) free)))"
proof (induction "is")
  case Nil
  then show ?case by simp
next
  case (Cons i "is")
  show ?case
    using Cons.IH winning_column_find[OF r ne cols, of k "(p + i) mod n + 1"]
    by (cases "find (wins k b ((p + i) mod n + 1)) free")
       (simp_all add: find_append_cases find_map_Pair Let_def)
qed

lemma map_add_upto: "map (\<lambda>i. i + c) [a..b] = [a + c..b + c]"
  by (rule nth_equalityI) simp_all

lemma opponents_turn_order:
  assumes "1 \<le> p" and "p \<le> n"
  shows "opponents_in_turn_order n p = [p + 1..n] @ [1..p - 1]"
proof -
  have split: "[0..n - 2] = [0..n - p - 1] @ [n - p..n - 2]"
  proof (cases "p = n")
    case True
    then show ?thesis by simp
  next
    case False
    then have "[0..n - 2] = [0..n - p - 1] @ [n - p - 1 + 1..n - 2]"
      using assms by (intro upto_split2) linarith+
    then show ?thesis by simp
  qed
  have a: "map (\<lambda>i. (p + i) mod n + 1) [0..n - p - 1] = [p + 1..n]"
  proof -
    have "map (\<lambda>i. (p + i) mod n + 1) [0..n - p - 1] = map (\<lambda>i. i + (p + 1)) [0..n - p - 1]"
    proof (intro map_cong refl)
      fix i assume "i \<in> set [0..n - p - 1]"
      then have i: "0 \<le> i" "i \<le> n - p - 1" by simp_all
      have "(p + i) mod n = p + i" using i assms by (intro mod_pos_pos_trivial) linarith+
      then show "(p + i) mod n + 1 = i + (p + 1)" by simp
    qed
    also have "\<dots> = [0 + (p + 1)..n - p - 1 + (p + 1)]" by (rule map_add_upto)
    finally show ?thesis by simp
  qed
  have b: "map (\<lambda>i. (p + i) mod n + 1) [n - p..n - 2] = [1..p - 1]"
  proof -
    have "map (\<lambda>i. (p + i) mod n + 1) [n - p..n - 2] = map (\<lambda>i. i + (p + 1 - n)) [n - p..n - 2]"
    proof (intro map_cong refl)
      fix i assume "i \<in> set [n - p..n - 2]"
      then have i: "n - p \<le> i" "i \<le> n - 2" by simp_all
      have "(p + i) mod n = ((p + i - n) + n) mod n" by simp
      also have "\<dots> = (p + i - n) mod n" by (simp only: mod_add_self2)
      also have "\<dots> = p + i - n" using i assms by (intro mod_pos_pos_trivial) linarith+
      finally have "(p + i) mod n = p + i - n" .
      then show "(p + i) mod n + 1 = i + (p + 1 - n)" by simp
    qed
    also have "\<dots> = [n - p + (p + 1 - n)..n - 2 + (p + 1 - n)]" by (rule map_add_upto)
    finally show ?thesis by simp
  qed
  show ?thesis unfolding opponents_in_turn_order_def split map_append a b ..
qed


text \<open>
  Claim C5. On a rectangular board with at least one row and a list of columns of the
  board, \<open>win_or_block_column\<close> returns the first column of the list whose drop makes the
  player win; when there is none, the column of the first pair (opponent, column), opponents
  in turn order from the player after \<open>player\<close> and for each opponent the columns in the
  order of the list, whose drop makes that opponent win; and no column when there is no such
  pair either. For a player in \<open>1..num_players\<close> the opponents are walked in the order
  \<open>player + 1, ..., num_players, 1, ..., player - 1\<close>.
\<close>

theorem win_or_block_column_first:
  assumes "rect b" and "b \<noteq> []" and "columns_in_range b free_columns"
  shows "win_or_block_column k num_players b free_columns player =
     Inr (case find (wins k b player) free_columns of
            Some column \<Rightarrow> Some column
          | None \<Rightarrow>
              map_option snd
                (find (\<lambda>(opponent, column). wins k b opponent column)
                   (List.product (opponents_in_turn_order num_players player) free_columns)))
    \<and> (1 \<le> player \<and> player \<le> num_players \<longrightarrow>
          opponents_in_turn_order num_players player =
            [player + 1..num_players] @ [1..player - 1])"
proof
  show "win_or_block_column k num_players b free_columns player =
     Inr (case find (wins k b player) free_columns of
            Some column \<Rightarrow> Some column
          | None \<Rightarrow>
              map_option snd
                (find (\<lambda>(opponent, column). wins k b opponent column)
                   (List.product (opponents_in_turn_order num_players player) free_columns)))"
    unfolding win_or_block_column_def winning_column_find[OF assms]
      block_loop_find[OF assms] opponents_in_turn_order_def
    by (simp split: option.splits)
next
  show "1 \<le> player \<and> player \<le> num_players \<longrightarrow>
          opponents_in_turn_order num_players player =
            [player + 1..num_players] @ [1..player - 1]"
    using opponents_turn_order by blast
qed

theorem win_or_block_column_first_witness:
  "rect scenario_board \<and> scenario_board \<noteq> []
   \<and> columns_in_range scenario_board [1, 2, 3, 4, 5, 6, 7]
   \<and> win_or_block_column 4 2 scenario_board [1, 2, 3, 4, 5, 6, 7] 2 = Inr (Some 2)
   \<and> find (wins 4 scenario_board 2) [1, 2, 3, 4, 5, 6, 7] = None
   \<and> opponents_in_turn_order 2 2 = [1]
   \<and> wins 4 scenario_board 1 2"
proof -
  have r: "rect scenario_board" by (simp add: rect_def scenario_board_def)
  have n: "scenario_board \<noteq> []" by (simp add: scenario_board_def)
  have c: "columns_in_range scenario_board [1, 2, 3, 4, 5, 6, 7]"
    by (simp add: columns_in_range_def scenario_board_def)
  have f: "find (wins 4 scenario_board 2) [1, 2, 3, 4, 5, 6, 7] = None" by code_simp
  have o: "opponents_in_turn_order 2 2 = [1]" by code_simp
  have w1: "\<not> wins 4 scenario_board 1 1" by code_simp
  have w2: "wins 4 scenario_board 1 2" by code_simp
  from win_or_block_column_first[OF r n c, of 4 2 2]
  have "win_or_block_column 4 2 scenario_board [1, 2, 3, 4, 5, 6, 7] 2 = Inr (Some 2)"
    unfolding f o using w1 w2 by simp
  with r n c f o w2 show ?thesis by (intro conjI)
qed


section \<open>The column score\<close>



end
